theory Spec2Isabelle
  imports Complex_Main
begin

section \<open>The engine of src/src/App.tsx\<close>

text \<open>
  The engine of \<^verbatim>\<open>App.tsx\<close> is embedded function by function. JavaScript numbers that
  count cards and points are \<open>int\<close>; probabilities and expected values are exact rationals
  (\<open>rat\<close>): the rounding of IEEE doubles is not part of the model. The shoe is one mutable
  object shared by the whole recursion, so every function that touches it takes the shoe and
  returns it; the two memo tables are threaded the same way.
\<close>

datatype Rank = A | R2 | R3 | R4 | R5 | R6 | R7 | R8 | R9 | R10 | J | Q | K

definition RANKS :: "Rank list" where
  "RANKS = [A, R2, R3, R4, R5, R6, R7, R8, R9, R10, J, Q, K]"

fun rankValue :: "Rank \<Rightarrow> int" where
  "rankValue A = 11"
| "rankValue J = 10"
| "rankValue Q = 10"
| "rankValue K = 10"
| "rankValue R10 = 10"
| "rankValue R2 = 2"
| "rankValue R3 = 3"
| "rankValue R4 = 4"
| "rankValue R5 = 5"
| "rankValue R6 = 6"
| "rankValue R7 = 7"
| "rankValue R8 = 8"
| "rankValue R9 = 9"

record Rules =
  decks :: int
  dealerHitsSoft17 :: bool
  blackjackPays :: rat
  lateSurrender :: bool
  doubleAllowed :: bool
  doubleAfterSplit :: bool
  resplitPairs :: int
  splitAcesOneCardOnly :: bool
  resplitAces :: bool

definition DEFAULT_RULES :: Rules where
  "DEFAULT_RULES = \<lparr> decks = 6, dealerHitsSoft17 = True, blackjackPays = 3 / 2,
     lateSurrender = True, doubleAllowed = True, doubleAfterSplit = True, resplitPairs = 3,
     splitAcesOneCardOnly = True, resplitAces = False \<rparr>"

type_synonym Hand = "Rank list"

record Totals =
  hard :: int
  soft :: "int option"
  isSoft :: bool
  best :: int

text \<open>\<^verbatim>\<open>PlayerContext\<close>. Its field \<^verbatim>\<open>doubleAfterSplit\<close> is \<open>ctxDoubleAfterSplit\<close> here
  (the rules have a field of the same name); it is optional in the source
  (\<^verbatim>\<open>doubleAfterSplit?: boolean\<close>): \<open>None\<close> is \<^verbatim>\<open>undefined\<close>.\<close>

record PlayerContext =
  rules :: Rules
  upcard :: Rank
  canDouble :: bool
  canSplit :: bool
  splitDepth :: int
  isSplitAces :: bool
  ctxDoubleAfterSplit :: "bool option"

text \<open>First loop of \<^verbatim>\<open>handTotals\<close>: the pair is \<open>(total, aces)\<close>.\<close>

definition countStep :: "Rank \<Rightarrow> int \<times> int \<Rightarrow> int \<times> int" where
  "countStep r ta = (if r = A then (fst ta, snd ta + 1) else (fst ta + rankValue r, snd ta))"

definition countCards :: "Hand \<Rightarrow> int \<times> int" where
  "countCards cards = fold countStep cards (0, 0)"

text \<open>Second loop: \<^verbatim>\<open>for (let i = 0; i < aces; i++)\<close>, started as \<open>aceLoop 0 aces total\<close>.\<close>

function aceLoop :: "int \<Rightarrow> int \<Rightarrow> int \<Rightarrow> int" where
  "aceLoop i aces b =
     (if i < aces
      then aceLoop (i + 1) aces (if b + 11 \<le> 21 - (aces - 1 - i) then b + 11 else b + 1)
      else b)"
  by pat_completeness auto

termination
  by (relation "measure (\<lambda>(i, aces, b). nat (aces - i))") auto

declare aceLoop.simps [simp del]

definition handTotals :: "Hand \<Rightarrow> Totals" where
  "handTotals cards =
     (let total = fst (countCards cards);
          aces = snd (countCards cards);
          b = aceLoop 0 aces total;
          isSoft' = (aces > 0 \<and> b \<le> 21 \<and> b - total - (aces - 1) = 11);
          hard' = total + aces * 1;
          soft' = (if isSoft' then Some b else None)
      in \<lparr> hard = hard', soft = soft', isSoft = isSoft', best = (if isSoft' then b else hard') \<rparr>)"

definition isBlackjack :: "Hand \<Rightarrow> bool" where
  "isBlackjack cards \<longleftrightarrow> length cards = 2 \<and> best (handTotals cards) = 21 \<and> A \<in> set cards"

definition isBust :: "Hand \<Rightarrow> bool" where
  "isBust cards \<longleftrightarrow> best (handTotals cards) > 21"

text \<open>\<^verbatim>\<open>normalizeRank\<close> returns the string \<^verbatim>\<open>"10"\<close> for J, Q and K and the rank's own
  string otherwise; the strings are the ranks' names, so the result is given as a rank.\<close>

definition normalizeRank :: "Rank \<Rightarrow> Rank" where
  "normalizeRank r = (if r = J \<or> r = Q \<or> r = K then R10 else r)"

text \<open>\<^verbatim>\<open>canSplit(cards)\<close>; the name \<open>canSplit\<close> is the field of the context.\<close>

definition canSplitHand :: "Hand \<Rightarrow> bool" where
  "canSplitHand cards \<longleftrightarrow> length cards = 2 \<and> normalizeRank (cards ! 0) = normalizeRank (cards ! 1)"

text \<open>The hard value of one card: an ace counted as 1.\<close>

definition hardValue :: "Rank \<Rightarrow> int" where
  "hardValue r = (if r = A then 1 else rankValue r)"

subsection \<open>Finite shoe model\<close>

type_synonym Shoe = "Rank \<Rightarrow> int"

definition makeFullShoe :: "int \<Rightarrow> Shoe" where
  "makeFullShoe n = fold (\<lambda>r s. s(r := 4 * n)) RANKS (\<lambda>r. 0)"

definition shoeTotal :: "Shoe \<Rightarrow> int" where
  "shoeTotal s = fold (\<lambda>r t. t + s r) RANKS 0"

definition draw :: "Shoe \<Rightarrow> Rank \<Rightarrow> Shoe" where
  "draw s r = s(r := s r - 1)"

definition undraw :: "Shoe \<Rightarrow> Rank \<Rightarrow> Shoe" where
  "undraw s r = s(r := s r + 1)"

text \<open>\<^verbatim>\<open>shoeKey\<close> joins the thirteen counts with commas; the list of counts stands for
  that string.\<close>

definition shoeKey :: "Shoe \<Rightarrow> int list" where
  "shoeKey s = map s RANKS"

definition remove :: "Shoe \<Rightarrow> Rank \<Rightarrow> Shoe" where
  "remove s r = (if s r > 0 then s(r := s r - 1) else s)"

definition initShoeMulti :: "int \<Rightarrow> Hand list \<Rightarrow> Rank \<Rightarrow> Shoe" where
  "initShoeMulti n hands dealerUp =
     remove (fold (\<lambda>h s. fold (\<lambda>r s'. remove s' r) h s) hands (makeFullShoe n)) dealerUp"

text \<open>The invariant of the shoe: no count is negative. \<^verbatim>\<open>initShoeMulti\<close> establishes it
  (it never takes a card from a count of 0) and every \<^verbatim>\<open>draw\<close> is guarded by
  \<^verbatim>\<open>shoe[r] <= 0\<close>.\<close>

definition shoeOK :: "Shoe \<Rightarrow> bool" where
  "shoeOK s \<longleftrightarrow> list_all (\<lambda>r. 0 \<le> s r) RANKS"

subsection \<open>Dealer distribution with finite shoe\<close>

text \<open>
  The distribution is a JavaScript object whose keys are the strings \<^verbatim>\<open>"17"\<close> ...
  \<^verbatim>\<open>"21"\<close> (written by \<^verbatim>\<open>String(t.best)\<close>, read back by \<^verbatim>\<open>parseInt\<close>) and
  \<^verbatim>\<open>"bust"\<close>. \<open>Tot n\<close> is the key \<^verbatim>\<open>String(n)\<close>; the object is an association list
  with one entry per key.
\<close>

datatype Outcome = Tot int | Bust

type_synonym Dist = "(Outcome \<times> rat) list"

text \<open>\<^verbatim>\<open>out[k] || 0\<close>: a missing key reads as 0.\<close>

definition getOr0 :: "Dist \<Rightarrow> Outcome \<Rightarrow> rat" where
  "getOr0 out k = (case map_of out k of None \<Rightarrow> 0 | Some v \<Rightarrow> v)"

text \<open>\<^verbatim>\<open>out[k] = v\<close>.\<close>

fun setKey :: "Dist \<Rightarrow> Outcome \<Rightarrow> rat \<Rightarrow> Dist" where
  "setKey [] k v = [(k, v)]"
| "setKey ((k', w) # rest) k v = (if k' = k then (k', v) # rest else (k', w) # setKey rest k v)"

text \<open>\<^verbatim>\<open>for (const k of Object.keys(next)) out[k] = (out[k] || 0) + p * next[k]\<close>.\<close>

definition mixInto :: "Dist \<Rightarrow> rat \<Rightarrow> Dist \<Rightarrow> Dist" where
  "mixInto out p nxt = fold (\<lambda>kv acc. setKey acc (fst kv) (getOr0 acc (fst kv) + p * snd kv)) nxt out"

text \<open>The memo of \<^verbatim>\<open>dealerOutcomeProbs\<close> is keyed by the string
  \<^verbatim>\<open>`${t.best}|${t.isSoft ? "S" : "H"}|${shoeKey(shoe)}`\<close>; the triple stands for it.\<close>

type_synonym MemoKey = "int \<times> bool \<times> int list"

type_synonym Memo = "MemoKey \<Rightarrow> Dist option"

definition shouldStand :: "Totals \<Rightarrow> Rules \<Rightarrow> bool" where
  "shouldStand t rl =
     (if best t > 21 then False
      else if isSoft t then
        (if best t > 17 then True
         else if best t = 17 then \<not> dealerHitsSoft17 rl
         else False)
      else best t \<ge> 17)"

text \<open>
  \<^verbatim>\<open>probsFor\<close> and its loop over \<^verbatim>\<open>RANKS\<close>. Both return the distribution together with
  the shoe and the memo as they are left. \<open>probsLoop\<close> takes the ranks still to visit and
  the distribution \<open>out\<close> accumulated so far.
\<close>

function probsFor :: "Rules \<Rightarrow> Hand \<Rightarrow> Shoe \<Rightarrow> Memo \<Rightarrow> Dist \<times> Shoe \<times> Memo"
  and probsLoop :: "Rules \<Rightarrow> Hand \<Rightarrow> int \<Rightarrow> Rank list \<Rightarrow> Dist \<Rightarrow> Shoe \<Rightarrow> Memo \<Rightarrow> Dist \<times> Shoe \<times> Memo"
where
  "probsFor rl cards shoe memo =
     (let t = handTotals cards;
          key = (best t, isSoft t, shoeKey shoe)
      in case memo key of
           Some d \<Rightarrow> (d, shoe, memo)
         | None \<Rightarrow>
            if length cards = 2 \<and> best t = 21 then ([(Tot 21, 1)], shoe, memo(key \<mapsto> [(Tot 21, 1)]))
            else if best t > 21 then ([(Bust, 1)], shoe, memo(key \<mapsto> [(Bust, 1)]))
            else if shouldStand t rl then ([(Tot (best t), 1)], shoe, memo(key \<mapsto> [(Tot (best t), 1)]))
            else if shoeTotal shoe = 0 then ([], shoe, memo(key \<mapsto> []))
            else (case probsLoop rl cards (shoeTotal shoe) RANKS [] shoe memo of
                    (out, shoe', memo') \<Rightarrow> (out, shoe', memo'(key \<mapsto> out))))"
| "probsLoop rl cards tot [] out shoe memo = (out, shoe, memo)"
| "probsLoop rl cards tot (r # rs) out shoe memo =
     (if shoe r \<le> 0 then probsLoop rl cards tot rs out shoe memo
      else (case probsFor rl (cards @ [r]) (draw shoe r) memo of
              (nxt, shoe', memo') \<Rightarrow>
                probsLoop rl cards tot rs
                  (mixInto out (of_int (shoe r) / of_int tot) nxt) (undraw shoe' r) memo'))"
  by pat_completeness auto

text \<open>The hole-card loop of \<^verbatim>\<open>dealerOutcomeProbs\<close>.\<close>

fun holeLoop :: "Rules \<Rightarrow> Rank \<Rightarrow> int \<Rightarrow> Rank list \<Rightarrow> Dist \<Rightarrow> Shoe \<Rightarrow> Memo \<Rightarrow> Dist \<times> Shoe \<times> Memo" where
  "holeLoop rl up tot [] dst shoe memo = (dst, shoe, memo)"
| "holeLoop rl up tot (r # rs) dst shoe memo =
     (if shoe r \<le> 0 then holeLoop rl up tot rs dst shoe memo
      else (case probsFor rl [up, r] (draw shoe r) memo of
              (nxt, shoe', memo') \<Rightarrow>
                holeLoop rl up tot rs
                  (mixInto dst (of_int (shoe r) / of_int tot) nxt) (undraw shoe' r) memo'))"

definition dealerOutcomeProbs :: "Rank \<Rightarrow> Shoe \<Rightarrow> Rules \<Rightarrow> Dist \<times> Shoe" where
  "dealerOutcomeProbs up shoeStart rl =
     (case holeLoop rl up (shoeTotal shoeStart) RANKS [] shoeStart Map.empty of
        (dst, shoe', memo') \<Rightarrow> (dst, shoe'))"

subsection \<open>EV engine\<close>

text \<open>One step of the loop of \<^verbatim>\<open>evStand\<close> over the keys of the distribution.\<close>

definition standStep :: "int \<Rightarrow> Outcome \<times> rat \<Rightarrow> rat \<Rightarrow> rat" where
  "standStep pt kp ev =
     (case fst kp of
        Bust \<Rightarrow> ev + snd kp
      | Tot dt \<Rightarrow> if pt > dt then ev + snd kp else if pt < dt then ev - snd kp else ev)"

definition evStand :: "Hand \<Rightarrow> Rank \<Rightarrow> Rules \<Rightarrow> Shoe \<Rightarrow> rat \<times> Shoe" where
  "evStand player up rl shoe =
     (let pt = best (handTotals player)
      in if pt > 21 then (- 1, shoe)
         else (case dealerOutcomeProbs up shoe rl of
                 (dst, shoe') \<Rightarrow> (fold (standStep pt) dst 0, shoe')))"

definition evInitialBlackjack :: "Rank \<Rightarrow> Rules \<Rightarrow> Shoe \<Rightarrow> rat \<times> Shoe" where
  "evInitialBlackjack up rl shoe =
     (case dealerOutcomeProbs up shoe rl of
        (dst, shoe') \<Rightarrow> ((1 - getOr0 dst (Tot 21)) * blackjackPays rl, shoe'))"

text \<open>
  \<^verbatim>\<open>handKey\<close> renders the counts of the normalized ranks of the hand, one entry per rank
  that occurs. The source sorts the entries as strings; here they stand in the order of
  \<open>RANKS\<close>, which is as canonical.
\<close>

definition handKey :: "Hand \<Rightarrow> (Rank \<times> nat) list" where
  "handKey hand =
     map (\<lambda>r. (r, count_list (map normalizeRank hand) r))
       (filter (\<lambda>r. r \<in> set (map normalizeRank hand)) RANKS)"

text \<open>The cache key of \<^verbatim>\<open>bestActionEV\<close>: the tuple of the parts the source joins with
  \<^verbatim>\<open>"|"\<close>.\<close>

type_synonym CacheKey =
  "(Rank \<times> nat) list \<times> int \<times> bool \<times> Rank \<times> bool \<times> bool \<times> int \<times> bool \<times> bool \<times> bool \<times> int list"

type_synonym Cache = "CacheKey \<Rightarrow> rat option"

definition cacheKey :: "Hand \<Rightarrow> PlayerContext \<Rightarrow> Shoe \<Rightarrow> CacheKey" where
  "cacheKey hand ctx shoe =
     (handKey hand, best (handTotals hand), isSoft (handTotals hand), upcard ctx,
      canDouble ctx, canSplit ctx, splitDepth ctx, isSplitAces ctx,
      dealerHitsSoft17 (rules ctx), lateSurrender (rules ctx), shoeKey shoe)"

text \<open>The loop of the Double action: one card, then \<^verbatim>\<open>evStand\<close>.\<close>

fun doubleLoop :: "Hand \<Rightarrow> PlayerContext \<Rightarrow> int \<Rightarrow> Rank list \<Rightarrow> rat \<Rightarrow> Shoe \<Rightarrow> rat \<times> Shoe" where
  "doubleLoop hand ctx tot2 [] v2 shoe = (v2, shoe)"
| "doubleLoop hand ctx tot2 (r # rs) v2 shoe =
     (if shoe r \<le> 0 then doubleLoop hand ctx tot2 rs v2 shoe
      else (case evStand (hand @ [r]) (upcard ctx) (rules ctx) (draw shoe r) of
              (v, shoe') \<Rightarrow>
                doubleLoop hand ctx tot2 rs (v2 + of_int (shoe r) / of_int tot2 * v) (undraw shoe' r)))"

text \<open>The locals \<^verbatim>\<open>splittingAces\<close>, \<^verbatim>\<open>canResplit\<close> and \<^verbatim>\<open>childCtx\<close> of the Split
  action. An \<^verbatim>\<open>undefined\<close> \<^verbatim>\<open>doubleAfterSplit\<close> is falsy wherever \<^verbatim>\<open>canDouble\<close> is
  read.\<close>

definition splittingAces :: "Hand \<Rightarrow> bool" where
  "splittingAces hand \<longleftrightarrow> hand ! 0 = A \<and> hand ! 1 = A"

definition canResplit :: "PlayerContext \<Rightarrow> Hand \<Rightarrow> bool" where
  "canResplit ctx hand \<longleftrightarrow>
     splitDepth ctx < resplitPairs (rules ctx)
     \<and> (if splittingAces hand then resplitAces (rules ctx) else True)"

definition childCtx :: "PlayerContext \<Rightarrow> Hand \<Rightarrow> PlayerContext" where
  "childCtx ctx hand =
     ctx \<lparr> canDouble := (ctxDoubleAfterSplit ctx = Some True),
           canSplit := canResplit ctx hand,
           splitDepth := splitDepth ctx + 1,
           isSplitAces := splittingAces hand \<rparr>"

text \<open>\<^verbatim>\<open>Math.max\<close> over the action values. \<^verbatim>\<open>Number.NEGATIVE_INFINITY\<close>, the value of
  an action that is not offered, is \<open>None\<close>: it never wins against the stand value.\<close>

fun mathMax :: "rat \<Rightarrow> rat option list \<Rightarrow> rat" where
  "mathMax x [] = x"
| "mathMax x (None # ys) = mathMax x ys"
| "mathMax x (Some y # ys) = mathMax (max x y) ys"

function bestActionEV :: "Hand \<Rightarrow> PlayerContext \<Rightarrow> Shoe \<Rightarrow> Cache \<Rightarrow> rat \<times> Shoe \<times> Cache"
  and hitLoop :: "Hand \<Rightarrow> PlayerContext \<Rightarrow> int \<Rightarrow> Rank list \<Rightarrow> rat \<Rightarrow> Shoe \<Rightarrow> Cache \<Rightarrow> rat \<times> Shoe \<times> Cache"
  and splitLoop :: "Hand \<Rightarrow> PlayerContext \<Rightarrow> int \<Rightarrow> Rank list \<Rightarrow> rat \<Rightarrow> rat \<Rightarrow> Shoe \<Rightarrow> Cache
                    \<Rightarrow> (rat \<times> rat) \<times> Shoe \<times> Cache"
where
  "bestActionEV hand ctx shoe cache =
     (let key = cacheKey hand ctx shoe
      in case cache key of
           Some v \<Rightarrow> (v, shoe, cache)
         | None \<Rightarrow>
            if isBust hand then (- 1, shoe, cache(key \<mapsto> - 1))
            else if (length hand = 2 \<and> splitDepth ctx = 0) \<and> isBlackjack hand then
              (case evInitialBlackjack (upcard ctx) (rules ctx) shoe of
                 (v, shoe1) \<Rightarrow> (v, shoe1, cache(key \<mapsto> v)))
            else
              (case evStand hand (upcard ctx) (rules ctx) shoe of (standEV, shoe1) \<Rightarrow>
               case hitLoop hand ctx (shoeTotal shoe1) RANKS 0 shoe1 cache of (hitEV, shoe2, cache2) \<Rightarrow>
               case (if canDouble ctx \<and> length hand = 2 \<and> doubleAllowed (rules ctx)
                     then (case doubleLoop hand ctx (shoeTotal shoe2) RANKS 0 shoe2 of
                             (v2, s) \<Rightarrow> (Some (2 * v2), s))
                     else (None, shoe2)) of (doubleEV, shoe3) \<Rightarrow>
               let surrenderEV =
                     (if lateSurrender (rules ctx) \<and> length hand = 2 \<and> splitDepth ctx = 0
                      then Some (- (1 / 2)) else None)
               in case (if canSplit ctx \<and> length hand = 2
                           \<and> normalizeRank (hand ! 0) = normalizeRank (hand ! 1)
                        then (case splitLoop hand ctx (shoeTotal shoe3) RANKS 0 0 shoe3 cache2 of
                                (lr, s, c) \<Rightarrow> (Some (fst lr + snd lr), s, c))
                        else (None, shoe3, cache2)) of (splitEV, shoe4, cache4) \<Rightarrow>
               let bestv = mathMax standEV [Some hitEV, doubleEV, surrenderEV, splitEV]
               in (bestv, shoe4, cache4(key \<mapsto> bestv))))"
| "hitLoop hand ctx tot [] hitEV shoe cache = (hitEV, shoe, cache)"
| "hitLoop hand ctx tot (r # rs) hitEV shoe cache =
     (if shoe r \<le> 0 then hitLoop hand ctx tot rs hitEV shoe cache
      else (case (if isSplitAces ctx \<and> splitAcesOneCardOnly (rules ctx)
                  then (case evStand (hand @ [r]) (upcard ctx) (rules ctx) (draw shoe r) of
                          (v, s) \<Rightarrow> (v, s, cache))
                  else bestActionEV (hand @ [r]) ctx (draw shoe r) cache) of
              (v, shoe', cache') \<Rightarrow>
                hitLoop hand ctx tot rs (hitEV + of_int (shoe r) / of_int tot * v)
                  (undraw shoe' r) cache'))"
| "splitLoop hand ctx totS [] left right shoe cache = ((left, right), shoe, cache)"
| "splitLoop hand ctx totS (r # rs) left right shoe cache =
     (if shoe r \<le> 0 then splitLoop hand ctx totS rs left right shoe cache
      else (case (if splittingAces hand \<and> splitAcesOneCardOnly (rules ctx)
                  then (case evStand [hand ! 0, r] (upcard ctx) (rules ctx) (draw shoe r) of
                          (v, s) \<Rightarrow> (v, s, cache))
                  else bestActionEV [hand ! 0, r] (childCtx ctx hand) (draw shoe r) cache) of
              (leftEV, shoe1, cache1) \<Rightarrow>
            case (if splittingAces hand \<and> splitAcesOneCardOnly (rules ctx)
                  then (case evStand [hand ! 1, r] (upcard ctx) (rules ctx) shoe1 of
                          (v, s) \<Rightarrow> (v, s, cache1))
                  else bestActionEV [hand ! 1, r] (childCtx ctx hand) shoe1 cache1) of
              (rightEV, shoe2, cache2) \<Rightarrow>
                splitLoop hand ctx totS rs
                  (left + of_int (shoe r) / of_int totS * leftEV)
                  (right + of_int (shoe r) / of_int totS * rightEV)
                  (undraw shoe2 r) cache2))"
  by pat_completeness auto

text \<open>
  \<^verbatim>\<open>actionEVsFinite\<close>, the top-level per-action table. The result object gets each key
  at most once, in this order, so it is the list of its entries. The three loops are the
  loops of \<^verbatim>\<open>bestActionEV\<close>, line for line; the cache is created empty.
\<close>

definition actionEVsFinite :: "Hand \<Rightarrow> PlayerContext \<Rightarrow> Shoe \<Rightarrow> (string \<times> rat) list \<times> Shoe" where
  "actionEVsFinite hand ctx shoe =
     (case evStand hand (upcard ctx) (rules ctx) shoe of (standEV, shoe1) \<Rightarrow>
      case hitLoop hand ctx (shoeTotal shoe1) RANKS 0 shoe1 Map.empty of (hitEV, shoe2, cache2) \<Rightarrow>
      case (if canDouble ctx \<and> length hand = 2 \<and> doubleAllowed (rules ctx)
            then (case doubleLoop hand ctx (shoeTotal shoe2) RANKS 0 shoe2 of
                    (v2, s) \<Rightarrow> ([(''Double'', 2 * v2)], s))
            else ([], shoe2)) of (dbl, shoe3) \<Rightarrow>
      let sur = (if lateSurrender (rules ctx) \<and> length hand = 2 \<and> splitDepth ctx = 0
                 then [(''Surrender'', - (1 / 2))] else [])
      in case (if length hand = 2 \<and> normalizeRank (hand ! 0) = normalizeRank (hand ! 1)
               then (case splitLoop hand ctx (shoeTotal shoe3) RANKS 0 0 shoe3 cache2 of
                       (lr, s, c) \<Rightarrow> ([(''Split'', fst lr + snd lr)], s, c))
               else ([], shoe3, cache2)) of (spl, shoe4, cache4) \<Rightarrow>
      case (if length hand = 2 \<and> isBlackjack hand
            then (case evInitialBlackjack (upcard ctx) (rules ctx) shoe4 of
                    (v, s) \<Rightarrow> ([(''Blackjack'', v)], s))
            else ([], shoe4)) of (bj, shoe5) \<Rightarrow>
      ([(''Stand'', standEV), (''Hit'', hitEV)] @ dbl @ sur @ spl @ bj, shoe5))"

text \<open>The context that \<^verbatim>\<open>App\<close> builds for each hand.\<close>

definition appCtx :: "Rules \<Rightarrow> Rank \<Rightarrow> Hand \<Rightarrow> PlayerContext" where
  "appCtx rl dealerUp hand =
     \<lparr> rules = rl, upcard = dealerUp, canDouble = (length hand = 2),
       canSplit = canSplitHand hand, splitDepth = 0, isSplitAces = False,
       ctxDoubleAfterSplit = Some (doubleAfterSplit rl) \<rparr>"

subsection \<open>Predicates and inputs used in the statements\<close>

text \<open>Every value in the cache is \<open>-1\<close>: what the cache holds while only busted hands
  have been valued.\<close>

definition cacheAllLoss :: "Cache \<Rightarrow> bool" where
  "cacheAllLoss cache \<longleftrightarrow> (\<forall>k v. cache k = Some v \<longrightarrow> v = - 1)"

text \<open>Six hands on the table that hold all 52 cards of one deck: the shoe is empty.\<close>

definition wholeDeck :: "Hand list" where
  "wholeDeck =
     [[A, R2, R3, R4, R5, R6, R7, R8, R9, R10], [A, R2, R3, R4, R5, R6, R7, R8, R9, R10],
      [A, R2, R3, R4, R5, R6, R7, R8, R9, R10], [A, R2, R3, R4, R5, R6, R7, R8, R9, R10],
      [J, Q, K, J, Q, K, J, Q, K], [J, Q, K]]"

text \<open>The sum of the probabilities of a distribution, and the outcomes the banker can end on.\<close>

definition distSum :: "Dist \<Rightarrow> rat" where
  "distSum d = sum_list (map snd d)"

definition okKey :: "Outcome \<Rightarrow> bool" where
  "okKey k = (case k of Bust \<Rightarrow> True | Tot n \<Rightarrow> 17 \<le> n \<and> n \<le> 21)"

definition keysOK :: "Dist \<Rightarrow> bool" where
  "keysOK d = list_all (\<lambda>kv. okKey (fst kv)) d"

text \<open>The two properties as invariants of the memo of \<^verbatim>\<open>dealerOutcomeProbs\<close>.\<close>

definition memoKeysOK :: "Memo \<Rightarrow> bool" where
  "memoKeysOK memo \<longleftrightarrow> (\<forall>key d. memo key = Some d \<longrightarrow> keysOK d)"

definition memoSums :: "Memo \<Rightarrow> bool" where
  "memoSums memo \<longleftrightarrow> (\<forall>key d. memo key = Some d \<longrightarrow> distSum d = 1)"

text \<open>Six hands on the table that, with the upcard 2, leave a single 2 in a one-deck shoe.\<close>

definition oneTwoLeft :: "Hand list" where
  "oneTwoLeft =
     [[A, R2, R3, R4, R5, R6, R7, R8, R9, R10], [A, R2, R3, R4, R5, R6, R7, R8, R9, R10],
      [A, R3, R4, R5, R6, R7, R8, R9, R10], [A, R3, R4, R5, R6, R7, R8, R9, R10],
      [J, Q, K, J, Q, K, J, Q, K], [J, Q, K]]"

text \<open>No probability of the distribution is negative.\<close>

definition distNonneg :: "Dist \<Rightarrow> bool" where
  "distNonneg d = list_all (\<lambda>kv. 0 \<le> snd kv) d"

text \<open>What every memo entry satisfies: no negative probability, and an entry stored for a
  hand of total 21 is the single outcome 21.\<close>

definition memoInv :: "Memo \<Rightarrow> bool" where
  "memoInv memo \<longleftrightarrow>
     (\<forall>key d. memo key = Some d \<longrightarrow> distNonneg d \<and> (fst key = 21 \<longrightarrow> d = [(Tot 21, 1)]))"

section \<open>Hand totals\<close>

lemma rankValue_ge2: "2 \<le> rankValue r"
  by (cases r) simp_all

lemma hardValue_ge1: "1 \<le> hardValue r"
  using rankValue_ge2 [of r] by (simp add: hardValue_def)

lemma fold_countStep:
  "fold countStep cards (t, a) =
     (t + sum_list (map rankValue (filter (\<lambda>r. r \<noteq> A) cards)), a + int (length (filter (\<lambda>r. r = A) cards)))"
  by (induction cards arbitrary: t a) (simp_all add: countStep_def)

lemma countCards_total_nonneg: "0 \<le> fst (countCards cards)"
proof -
  have "0 \<le> sum_list (map rankValue (filter (\<lambda>r. r \<noteq> A) cards))"
  proof (rule sum_list_nonneg)
    fix x assume "x \<in> set (map rankValue (filter (\<lambda>r. r \<noteq> A) cards))"
    then obtain r where "x = rankValue r" by auto
    with rankValue_ge2 [of r] show "0 \<le> x" by simp
  qed
  then show ?thesis by (simp add: countCards_def fold_countStep)
qed

lemma countCards_aces_nonneg: "0 \<le> snd (countCards cards)"
  by (simp add: countCards_def fold_countStep)

lemma countCards_hard:
  "fst (countCards cards) + snd (countCards cards) = sum_list (map hardValue cards)"
proof -
  have "t + sum_list (map rankValue (filter (\<lambda>r. r \<noteq> A) cards)) + (a + int (length (filter (\<lambda>r. r = A) cards)))
        = t + a + sum_list (map hardValue cards)" for t a
    by (induction cards arbitrary: t a) (simp_all add: hardValue_def)
  from this [of 0 0] show ?thesis by (simp add: countCards_def fold_countStep)
qed

lemma aceLoop_done: "aces \<le> i \<Longrightarrow> aceLoop i aces b = b"
  by (subst aceLoop.simps) simp

lemma aceLoop_all_one:
  "\<not> b + 11 \<le> 21 - (aces - 1 - i) \<Longrightarrow> i \<le> aces \<Longrightarrow> aceLoop i aces b = b + (aces - i)"
proof (induction i aces b rule: aceLoop.induct)
  case (1 i aces b)
  show ?case
  proof (cases "i < aces")
    case True
    have "aceLoop i aces b = aceLoop (i + 1) aces (b + 1)"
      using True "1.prems" by (subst aceLoop.simps) simp
    also have "\<dots> = b + 1 + (aces - (i + 1))"
      using True "1.prems" "1.IH" by simp
    finally show ?thesis by simp
  next
    case False
    with "1.prems" show ?thesis by (simp add: aceLoop_done)
  qed
qed

lemma aceLoop_first_eleven:
  assumes "0 \<le> b" "i < aces" "b + 11 \<le> 21 - (aces - 1 - i)"
  shows "aceLoop i aces b = b + 11 + (aces - 1 - i)"
proof -
  have "aceLoop i aces b = aceLoop (i + 1) aces (b + 11)"
    using assms by (subst aceLoop.simps) simp
  also have "\<dots> = b + 11 + (aces - (i + 1))"
  proof (cases "i + 1 < aces")
    case True
    then show ?thesis using assms by (intro aceLoop_all_one) auto
  next
    case False
    then show ?thesis using assms by (simp add: aceLoop_done)
  qed
  finally show ?thesis by simp
qed

lemma aceLoop_start:
  assumes "0 \<le> t" "0 \<le> aces"
  shows "aceLoop 0 aces t = (if 0 < aces \<and> t + aces + 10 \<le> 21 then t + aces + 10 else t + aces)"
proof (cases "0 < aces \<and> t + aces + 10 \<le> 21")
  case True
  then show ?thesis using assms aceLoop_first_eleven [of t 0 aces] by simp
next
  case False
  show ?thesis
  proof (cases "0 < aces")
    case True
    with False have "\<not> t + 11 \<le> 21 - (aces - 1 - 0)" by simp
    from aceLoop_all_one [OF this] assms False show ?thesis by simp
  next
    case F: False
    with assms have "aces = 0" by simp
    then show ?thesis by (simp add: aceLoop_done)
  qed
qed

lemma handTotals_hard: "hard (handTotals cards) = sum_list (map hardValue cards)"
  using countCards_hard [of cards] by (simp add: handTotals_def Let_def)

lemma handTotals_isSoft:
  "isSoft (handTotals cards) \<longleftrightarrow> A \<in> set cards \<and> sum_list (map hardValue cards) + 10 \<le> 21"
proof -
  have aces: "0 < snd (countCards cards) \<longleftrightarrow> A \<in> set cards"
    by (auto simp: countCards_def fold_countStep filter_empty_conv)
  show ?thesis
    using countCards_hard [of cards] aces
    by (auto simp: handTotals_def Let_def aceLoop_start countCards_total_nonneg countCards_aces_nonneg)
qed

lemma handTotals_best:
  "best (handTotals cards) =
     (if isSoft (handTotals cards) then hard (handTotals cards) + 10 else hard (handTotals cards))"
  by (auto simp: handTotals_def Let_def aceLoop_start countCards_total_nonneg countCards_aces_nonneg)

text \<open>
  C10. For every hand, the best total of \<^verbatim>\<open>handTotals\<close> is the hard total (every ace
  counted as 1) or the hard total plus 10, and it is the hard total plus 10 exactly when
  \<open>isSoft\<close> is true: at most one ace counts 11.
\<close>

theorem handTotals_best_hard_or_soft:
  "hard (handTotals cards) = sum_list (map hardValue cards)
   \<and> (best (handTotals cards) = hard (handTotals cards)
      \<or> best (handTotals cards) = hard (handTotals cards) + 10)
   \<and> (best (handTotals cards) = hard (handTotals cards) + 10 \<longleftrightarrow> isSoft (handTotals cards))"
  by (simp add: handTotals_hard handTotals_best)

theorem handTotals_best_hard_or_soft_witness:
  "hard (handTotals [A, A, R9]) = 11 \<and> best (handTotals [A, A, R9]) = 21
   \<and> isSoft (handTotals [A, A, R9])
   \<and> hard (handTotals [A, R6, R9]) = 16 \<and> best (handTotals [A, R6, R9]) = 16
   \<and> \<not> isSoft (handTotals [A, R6, R9])"
  using handTotals_best_hard_or_soft [of "[A, A, R9]"] handTotals_best_hard_or_soft [of "[A, R6, R9]"]
  by (auto simp: hardValue_def handTotals_isSoft)

lemma hard_le_best: "hard (handTotals cards) \<le> best (handTotals cards)"
  by (simp add: handTotals_best)

lemma hard_snoc: "hard (handTotals (cards @ [r])) = hard (handTotals cards) + hardValue r"
  by (simp add: handTotals_hard)

lemma hard_snoc_less: "hard (handTotals cards) < hard (handTotals (cards @ [r]))"
  using hardValue_ge1 [of r] by (simp add: hard_snoc)

termination probsFor
proof (relation "measures
    [\<lambda>x. case x of
        Inl (rl, cards, shoe, memo) \<Rightarrow>
          (if 22 \<le> hard (handTotals cards) then 0 else 2 * nat (22 - hard (handTotals cards)) + 2)
      | Inr (rl, cards, tot, rs, out, shoe, memo) \<Rightarrow> 2 * nat (22 - hard (handTotals cards)) + 1,
     \<lambda>x. case x of Inl _ \<Rightarrow> 0 | Inr (rl, cards, tot, rs, out, shoe, memo) \<Rightarrow> length rs]",
    goal_cases)
  case 1
  show ?case by simp
next
  case (2 rl cards shoe memo t key)
  then show ?case using hard_le_best [of cards] by simp
next
  case (3 rl cards tot r rs out shoe memo)
  then show ?case by simp
next
  case (4 rl cards tot r rs out shoe memo)
  then show ?case using hard_snoc_less [of cards r] by auto
next
  case 5
  then show ?case by simp
qed

declare probsFor.simps [simp del]

lemma hard_nonneg: "0 \<le> hard (handTotals cards)"
proof -
  have "0 \<le> sum_list (map hardValue cards)"
  proof (rule sum_list_nonneg)
    fix x assume "x \<in> set (map hardValue cards)"
    then obtain r where "x = hardValue r" by auto
    with hardValue_ge1 [of r] show "0 \<le> x" by simp
  qed
  then show ?thesis by (simp add: handTotals_hard)
qed

lemma not_bust_hard: "\<not> isBust cards \<Longrightarrow> hard (handTotals cards) \<le> 21"
  using hard_le_best [of cards] by (simp add: isBust_def)

termination bestActionEV
proof (relation "measures
    [\<lambda>x. case x of
        Inl (hand, ctx, shoe, cache) \<Rightarrow>
          nat (resplitPairs (rules ctx) - splitDepth ctx) + (if canSplit ctx then 1 else 0)
      | Inr (Inl (hand, ctx, tot, rs, hitEV, shoe, cache)) \<Rightarrow>
          nat (resplitPairs (rules ctx) - splitDepth ctx) + (if canSplit ctx then 1 else 0)
      | Inr (Inr (hand, ctx, totS, rs, left, right, shoe, cache)) \<Rightarrow>
          nat (resplitPairs (rules ctx) - splitDepth ctx),
     \<lambda>x. case x of
        Inl (hand, ctx, shoe, cache) \<Rightarrow>
          (if 22 \<le> hard (handTotals hand) then 0 else 2 * nat (22 - hard (handTotals hand)) + 2)
      | Inr (Inl (hand, ctx, tot, rs, hitEV, shoe, cache)) \<Rightarrow>
          2 * nat (22 - hard (handTotals hand)) + 1
      | Inr (Inr (hand, ctx, totS, rs, left, right, shoe, cache)) \<Rightarrow> 100,
     \<lambda>x. case x of
        Inl _ \<Rightarrow> 0
      | Inr (Inl (hand, ctx, tot, rs, hitEV, shoe, cache)) \<Rightarrow> length rs
      | Inr (Inr (hand, ctx, totS, rs, left, right, shoe, cache)) \<Rightarrow> length rs]",
    goal_cases)
  case 1
  show ?case by simp
next
  case (2 hand ctx shoe cache)
  then show ?case using not_bust_hard [of hand] by auto
next
  case 3
  then show ?case by simp
next
  case 4
  then show ?case by simp
next
  case (5 hand ctx tot r rs hitEV shoe cache)
  then show ?case using hard_snoc_less [of hand r] by auto
next
  case 6
  then show ?case by simp
next
  case 7
  then show ?case by simp
next
  case (8 hand ctx totS r rs left right shoe cache)
  then show ?case using hard_nonneg [of "[hand ! 0, r]"]
    by (auto simp: childCtx_def canResplit_def)
next
  case (9 hand ctx totS r rs left right shoe cache)
  then show ?case using hard_nonneg [of "[hand ! 1, r]"]
    by (auto simp: childCtx_def canResplit_def)
next
  case 10
  then show ?case by simp
qed

declare bestActionEV.simps [simp del]

section \<open>The shoe is restored\<close>

lemma undraw_draw: "undraw (draw s r) r = s"
  by (simp add: draw_def undraw_def)

lemma probs_shoe:
  "fst (snd (probsFor rl cards shoe memo)) = shoe"
  "fst (snd (probsLoop rl cards tot rs out shoe memo)) = shoe"
proof (induction rl cards shoe memo and rl cards tot rs out shoe memo rule: probsFor_probsLoop.induct)
  case (1 rl cards shoe memo)
  then show ?case
    by (subst probsFor.simps) (auto simp: Let_def split: option.splits prod.splits)
next
  case (2 rl cards tot out shoe memo)
  show ?case by simp
next
  case (3 rl cards tot r rs out shoe memo)
  show ?case
  proof (cases "shoe r \<le> 0")
    case True
    with 3 show ?thesis by simp
  next
    case False
    obtain nxt s' m' where eq: "probsFor rl (cards @ [r]) (draw shoe r) memo = (nxt, s', m')"
      by (cases "probsFor rl (cards @ [r]) (draw shoe r) memo") auto
    from "3.IH"(2) [OF False] eq have s': "s' = draw shoe r" by simp
    from "3.IH"(3) [OF False eq [symmetric] refl] s' False eq show ?thesis
      by (simp add: undraw_draw)
  qed
qed

lemma holeLoop_shoe: "fst (snd (holeLoop rl up tot rs dst shoe memo)) = shoe"
proof (induction rs arbitrary: dst shoe memo)
  case Nil
  show ?case by simp
next
  case (Cons r rs)
  obtain nxt s' m' where eq: "probsFor rl [up, r] (draw shoe r) memo = (nxt, s', m')"
    by (cases "probsFor rl [up, r] (draw shoe r) memo") auto
  from probs_shoe(1) [of rl "[up, r]" "draw shoe r" memo] eq have "s' = draw shoe r" by simp
  with Cons eq show ?case by (simp add: undraw_draw)
qed

lemma dealerOutcomeProbs_shoe: "snd (dealerOutcomeProbs up shoe rl) = shoe"
  using holeLoop_shoe [of rl up "shoeTotal shoe" RANKS "[]" shoe Map.empty]
  by (auto simp: dealerOutcomeProbs_def split: prod.splits)

lemma evStand_shoe: "snd (evStand player up rl shoe) = shoe"
  using dealerOutcomeProbs_shoe [of up shoe rl]
  by (auto simp: evStand_def Let_def split: prod.splits)

lemma evInitialBlackjack_shoe: "snd (evInitialBlackjack up rl shoe) = shoe"
  using dealerOutcomeProbs_shoe [of up shoe rl]
  by (auto simp: evInitialBlackjack_def split: prod.splits)

lemma doubleLoop_shoe: "snd (doubleLoop hand ctx tot2 rs v2 shoe) = shoe"
proof (induction rs arbitrary: v2 shoe)
  case Nil
  show ?case by simp
next
  case (Cons r rs)
  obtain v s' where eq: "evStand (hand @ [r]) (upcard ctx) (rules ctx) (draw shoe r) = (v, s')"
    by (cases "evStand (hand @ [r]) (upcard ctx) (rules ctx) (draw shoe r)") auto
  from evStand_shoe [of "hand @ [r]" "upcard ctx" "rules ctx" "draw shoe r"] eq
  have "s' = draw shoe r" by simp
  with Cons eq show ?case by (simp add: undraw_draw)
qed

lemma bestActionEV_cached:
  "cache (cacheKey hand ctx shoe) = Some v \<Longrightarrow> bestActionEV hand ctx shoe cache = (v, shoe, cache)"
  by (subst bestActionEV.simps) (simp add: Let_def)

lemma bestActionEV_bust:
  "cache (cacheKey hand ctx shoe) = None \<Longrightarrow> isBust hand \<Longrightarrow>
   bestActionEV hand ctx shoe cache = (- 1, shoe, cache(cacheKey hand ctx shoe \<mapsto> - 1))"
  by (subst bestActionEV.simps) (simp add: Let_def)

lemma bestActionEV_natural:
  "cache (cacheKey hand ctx shoe) = None \<Longrightarrow> \<not> isBust hand \<Longrightarrow>
   length hand = 2 \<Longrightarrow> splitDepth ctx = 0 \<Longrightarrow> isBlackjack hand \<Longrightarrow>
   bestActionEV hand ctx shoe cache =
     (case evInitialBlackjack (upcard ctx) (rules ctx) shoe of
        (v, shoe1) \<Rightarrow> (v, shoe1, cache(cacheKey hand ctx shoe \<mapsto> v)))"
  by (subst bestActionEV.simps) (simp add: Let_def)

lemma bestActionEV_tree:
  "cache (cacheKey hand ctx shoe) = None \<Longrightarrow> \<not> isBust hand \<Longrightarrow>
   \<not> ((length hand = 2 \<and> splitDepth ctx = 0) \<and> isBlackjack hand) \<Longrightarrow>
   bestActionEV hand ctx shoe cache =
     (case evStand hand (upcard ctx) (rules ctx) shoe of (standEV, shoe1) \<Rightarrow>
      case hitLoop hand ctx (shoeTotal shoe1) RANKS 0 shoe1 cache of (hitEV, shoe2, cache2) \<Rightarrow>
      case (if canDouble ctx \<and> length hand = 2 \<and> doubleAllowed (rules ctx)
            then (case doubleLoop hand ctx (shoeTotal shoe2) RANKS 0 shoe2 of
                    (v2, s) \<Rightarrow> (Some (2 * v2), s))
            else (None, shoe2)) of (doubleEV, shoe3) \<Rightarrow>
      case (if canSplit ctx \<and> length hand = 2
                \<and> normalizeRank (hand ! 0) = normalizeRank (hand ! 1)
            then (case splitLoop hand ctx (shoeTotal shoe3) RANKS 0 0 shoe3 cache2 of
                    (lr, s, c) \<Rightarrow> (Some (fst lr + snd lr), s, c))
            else (None, shoe3, cache2)) of (splitEV, shoe4, cache4) \<Rightarrow>
      (mathMax standEV [Some hitEV, doubleEV,
           (if lateSurrender (rules ctx) \<and> length hand = 2 \<and> splitDepth ctx = 0
            then Some (- (1 / 2)) else None), splitEV],
       shoe4,
       cache4(cacheKey hand ctx shoe \<mapsto> mathMax standEV [Some hitEV, doubleEV,
           (if lateSurrender (rules ctx) \<and> length hand = 2 \<and> splitDepth ctx = 0
            then Some (- (1 / 2)) else None), splitEV])))"
  by (subst bestActionEV.simps) (simp only: Let_def option.case if_False)

lemma player_shoe:
  "fst (snd (bestActionEV hand ctx shoe cache)) = shoe"
  "fst (snd (hitLoop hand ctx tot rs hitEV shoe cache)) = shoe"
  "fst (snd (splitLoop hand ctx totS rs left right shoe cache)) = shoe"
proof (induction hand ctx shoe cache and hand ctx tot rs hitEV shoe cache
         and hand ctx totS rs left right shoe cache rule: bestActionEV_hitLoop_splitLoop.induct)
  case (1 hand ctx shoe cache)
  let ?key = "cacheKey hand ctx shoe"
  show ?case
  proof (cases "cache ?key")
    case (Some v)
    then show ?thesis by (simp add: bestActionEV_cached)
  next
    case None
    show ?thesis
    proof (cases "isBust hand")
      case True
      with None show ?thesis by (simp add: bestActionEV_bust)
    next
      case nb: False
      show ?thesis
      proof (cases "(length hand = 2 \<and> splitDepth ctx = 0) \<and> isBlackjack hand")
        case True
        with None nb evInitialBlackjack_shoe [of "upcard ctx" "rules ctx" shoe] show ?thesis
          by (auto simp: bestActionEV_natural split: prod.splits)
      next
        case False
        obtain standEV s1 where st: "evStand hand (upcard ctx) (rules ctx) shoe = (standEV, s1)"
          by (cases "evStand hand (upcard ctx) (rules ctx) shoe") auto
        from evStand_shoe [of hand "upcard ctx" "rules ctx" shoe] st have s1: "s1 = shoe" by simp
        obtain hitEV s2 c2 where ht: "hitLoop hand ctx (shoeTotal shoe) RANKS 0 shoe cache = (hitEV, s2, c2)"
          by (cases "hitLoop hand ctx (shoeTotal shoe) RANKS 0 shoe cache") auto
        have s2: "s2 = shoe"
          using "1.IH"(1) [OF refl None nb False st [unfolded s1, symmetric]] ht by simp
        let ?dbl = "(if canDouble ctx \<and> length hand = 2 \<and> doubleAllowed (rules ctx)
                     then (case doubleLoop hand ctx (shoeTotal shoe) RANKS 0 shoe of
                             (v2, s) \<Rightarrow> (Some (2 * v2), s))
                     else (None, shoe))"
        obtain dEV s3 where db: "?dbl = (dEV, s3)" by (cases ?dbl) auto
        have s3: "s3 = shoe"
          using db doubleLoop_shoe [of hand ctx "shoeTotal shoe" RANKS 0 shoe]
          by (auto split: if_splits prod.splits)
        let ?spl = "(if canSplit ctx \<and> length hand = 2
                        \<and> normalizeRank (hand ! 0) = normalizeRank (hand ! 1)
                     then (case splitLoop hand ctx (shoeTotal shoe) RANKS 0 0 shoe c2 of
                             (lr, s, c) \<Rightarrow> (Some (fst lr + snd lr), s, c))
                     else (None, shoe, c2))"
        obtain sEV s4 c4 where sp: "?spl = (sEV, s4, c4)" by (cases ?spl) auto
        have s4: "s4 = shoe"
        proof (cases "canSplit ctx \<and> length hand = 2 \<and> normalizeRank (hand ! 0) = normalizeRank (hand ! 1)")
          case T: True
          have "fst (snd (splitLoop hand ctx (shoeTotal shoe) RANKS 0 0 shoe c2)) = shoe"
            using "1.IH"(2) [OF refl None nb False st [unfolded s1, symmetric]
                ht [unfolded s2, symmetric] refl db [unfolded s3, symmetric] refl T] .
          with sp T show ?thesis by (auto split: prod.splits)
        next
          case F: False
          with sp show ?thesis by auto
        qed
        show ?thesis
          by (simp only: bestActionEV_tree [where cache = cache and hand = hand and ctx = ctx and shoe = shoe, OF None nb False] st s1 prod.case ht s2 db s3 sp s4
                fst_conv snd_conv)
      qed
    qed
  qed
next
  case (2 hand ctx tot hitEV shoe cache)
  show ?case by simp
next
  case (3 hand ctx tot r rs hitEV shoe cache)
  show ?case
  proof (cases "shoe r \<le> 0")
    case True
    with 3 show ?thesis by simp
  next
    case False
    let ?call = "(if isSplitAces ctx \<and> splitAcesOneCardOnly (rules ctx)
                  then (case evStand (hand @ [r]) (upcard ctx) (rules ctx) (draw shoe r) of
                          (v, s) \<Rightarrow> (v, s, cache))
                  else bestActionEV (hand @ [r]) ctx (draw shoe r) cache)"
    obtain v s' c' where eq: "?call = (v, s', c')" by (cases ?call) auto
    have s': "s' = draw shoe r"
      using eq "3.IH"(2) [OF False] evStand_shoe [of "hand @ [r]" "upcard ctx" "rules ctx" "draw shoe r"]
      by (auto split: if_splits prod.splits)
    from "3.IH"(3) [OF False eq [symmetric] refl] s' False eq show ?thesis
      by (simp add: undraw_draw)
  qed
next
  case (4 hand ctx totS left right shoe cache)
  show ?case by simp
next
  case (5 hand ctx totS r rs left right shoe cache)
  show ?case
  proof (cases "shoe r \<le> 0")
    case True
    with 5 show ?thesis by simp
  next
    case False
    let ?one = "splittingAces hand \<and> splitAcesOneCardOnly (rules ctx)"
    let ?callL = "(if ?one
                  then (case evStand [hand ! 0, r] (upcard ctx) (rules ctx) (draw shoe r) of
                          (v, s) \<Rightarrow> (v, s, cache))
                  else bestActionEV [hand ! 0, r] (childCtx ctx hand) (draw shoe r) cache)"
    obtain l s1 c1 where eqL: "?callL = (l, s1, c1)" by (cases ?callL) auto
    have s1: "s1 = draw shoe r"
      using eqL "5.IH"(2) [OF False] evStand_shoe [of "[hand ! 0, r]" "upcard ctx" "rules ctx" "draw shoe r"]
      by (auto split: if_splits prod.splits)
    let ?callR = "(if ?one
                  then (case evStand [hand ! 1, r] (upcard ctx) (rules ctx) s1 of
                          (v, s) \<Rightarrow> (v, s, c1))
                  else bestActionEV [hand ! 1, r] (childCtx ctx hand) s1 c1)"
    obtain rv s2 c2 where eqR: "?callR = (rv, s2, c2)" by (cases ?callR) auto
    have s2: "s2 = draw shoe r"
      using eqR s1 "5.IH"(3) [OF False eqL [symmetric] refl] evStand_shoe [of "[hand ! 1, r]" "upcard ctx" "rules ctx" s1]
      by (auto split: if_splits prod.splits)
    from "5.IH"(4) [OF False eqL [symmetric] refl eqR [symmetric] refl] s2 False eqL eqR show ?thesis
      by (simp add: undraw_draw)
  qed
qed

lemma hardValue_le10: "hardValue r \<le> 10"
  by (cases r) (simp_all add: hardValue_def)

lemma two_cards_not_bust: "length cards = 2 \<Longrightarrow> \<not> isBust cards"
proof -
  assume "length cards = 2"
  then obtain a b where c: "cards = [a, b]"
    by (auto simp: length_Suc_conv numeral_2_eq_2)
  have h: "hard (handTotals cards) \<le> 20"
    using hardValue_le10 [of a] hardValue_le10 [of b] by (simp add: handTotals_hard c)
  have "isSoft (handTotals cards) \<Longrightarrow> hard (handTotals cards) + 10 \<le> 21"
    by (simp add: handTotals_isSoft handTotals_hard)
  with h show ?thesis
    by (cases "isSoft (handTotals cards)") (simp_all add: isBust_def handTotals_best)
qed

lemma isBust_evStand: "isBust hand \<Longrightarrow> evStand hand up rl shoe = (- 1, shoe)"
  by (simp add: evStand_def isBust_def)

lemma actionEVsFinite_unfold:
  "actionEVsFinite hand ctx shoe =
     ([(''Stand'', fst (evStand hand (upcard ctx) (rules ctx) shoe)),
       (''Hit'', fst (hitLoop hand ctx (shoeTotal shoe) RANKS 0 shoe Map.empty))]
      @ (if canDouble ctx \<and> length hand = 2 \<and> doubleAllowed (rules ctx)
         then [(''Double'', 2 * fst (doubleLoop hand ctx (shoeTotal shoe) RANKS 0 shoe))] else [])
      @ (if lateSurrender (rules ctx) \<and> length hand = 2 \<and> splitDepth ctx = 0
         then [(''Surrender'', - (1 / 2))] else [])
      @ (if length hand = 2 \<and> normalizeRank (hand ! 0) = normalizeRank (hand ! 1)
         then [(''Split'',
                 fst (fst (splitLoop hand ctx (shoeTotal shoe) RANKS 0 0 shoe
                        (snd (snd (hitLoop hand ctx (shoeTotal shoe) RANKS 0 shoe Map.empty)))))
                 + snd (fst (splitLoop hand ctx (shoeTotal shoe) RANKS 0 0 shoe
                        (snd (snd (hitLoop hand ctx (shoeTotal shoe) RANKS 0 shoe Map.empty))))))]
         else [])
      @ (if length hand = 2 \<and> isBlackjack hand
         then [(''Blackjack'', fst (evInitialBlackjack (upcard ctx) (rules ctx) shoe))] else []),
      shoe)"
  by (simp add: actionEVsFinite_def Let_def case_prod_beta evStand_shoe player_shoe
        doubleLoop_shoe evInitialBlackjack_shoe)

section \<open>Weights of the drawing loops\<close>

lemma shoeTotal_sum_list: "shoeTotal s = sum_list (map s RANKS)"
  by (simp add: shoeTotal_def RANKS_def)

lemma shoeOK_nonneg: "shoeOK s \<Longrightarrow> r \<in> set RANKS \<Longrightarrow> 0 \<le> s r"
  by (simp add: shoeOK_def list_all_iff)

lemma RANKS_all: "r \<in> set RANKS"
  by (cases r) (simp_all add: RANKS_def)

lemma weights_sum:
  fixes s :: Shoe
  shows "(\<Sum>r\<leftarrow>rs. if s r \<le> 0 then 0 else rat_of_int (s r) / rat_of_int tot)
   = rat_of_int (\<Sum>r\<leftarrow>rs. if s r \<le> 0 then 0 else s r) / rat_of_int tot"
  by (induction rs) (simp_all add: add_divide_distrib)

lemma positive_part_sum:
  fixes s :: Shoe
  shows "(\<And>r. r \<in> set rs \<Longrightarrow> 0 \<le> s r) \<Longrightarrow>
         (\<Sum>r\<leftarrow>rs. if s r \<le> 0 then 0 else s r) = sum_list (map s rs)"
proof (induction rs)
  case Nil
  show ?case by simp
next
  case (Cons a rs)
  have "0 \<le> s a" using Cons.prems [of a] by simp
  then have "(if s a \<le> 0 then 0 else s a) = s a" by simp
  moreover have "(\<Sum>r\<leftarrow>rs. if s r \<le> 0 then 0 else s r) = sum_list (map s rs)"
    using Cons.IH Cons.prems by simp
  ultimately show ?case by simp
qed

lemma weights_total:
  assumes "shoeOK s" "shoeTotal s \<noteq> 0"
  shows "(\<Sum>r\<leftarrow>RANKS. if s r \<le> 0 then 0 else rat_of_int (s r) / rat_of_int (shoeTotal s)) = 1"
proof -
  have "(\<Sum>r\<leftarrow>RANKS. if s r \<le> 0 then 0 else s r) = shoeTotal s"
    using positive_part_sum [of RANKS s] shoeOK_nonneg [OF assms(1)]
    by (simp add: shoeTotal_sum_list)
  with assms(2) show ?thesis by (simp add: weights_sum)
qed

lemma sum_list_filter_pos:
  fixes s :: Shoe
  shows "(\<Sum>r\<leftarrow>filter (\<lambda>r. 0 < s r) rs. f r) = (\<Sum>r\<leftarrow>rs. if s r \<le> 0 then 0 else (f r :: rat))"
  by (induction rs) (auto simp: not_le)

lemma empty_shoe_counts: "shoeOK s \<Longrightarrow> shoeTotal s = 0 \<Longrightarrow> s r \<le> 0"
proof -
  assume ok: "shoeOK s" and z: "shoeTotal s = 0"
  have "\<And>x. x \<in> set (map s RANKS) \<Longrightarrow> 0 \<le> x"
    using shoeOK_nonneg [OF ok] by auto
  then have "\<forall>x \<in> set (map s RANKS). x = 0"
    using z sum_list_nonneg_eq_0_iff [of "map s RANKS"]
    by (simp add: shoeTotal_sum_list)
  then show ?thesis using RANKS_all [of r] by simp
qed

lemma doubleLoop_value:
  "fst (doubleLoop hand ctx tot2 rs v2 shoe) =
     v2 + (\<Sum>r\<leftarrow>rs. if shoe r \<le> 0 then 0
              else rat_of_int (shoe r) / rat_of_int tot2
                   * fst (evStand (hand @ [r]) (upcard ctx) (rules ctx) (draw shoe r)))"
  by (induction rs arbitrary: v2)
     (simp_all add: case_prod_beta evStand_shoe undraw_draw)

section \<open>Busted hands\<close>

lemma bust_iff_hard: "isBust cards \<longleftrightarrow> 21 < hard (handTotals cards)"
proof (cases "isSoft (handTotals cards)")
  case True
  then have "hard (handTotals cards) + 10 \<le> 21"
    by (simp add: handTotals_isSoft handTotals_hard)
  with True show ?thesis by (simp add: isBust_def handTotals_best)
next
  case False
  then show ?thesis by (simp add: isBust_def handTotals_best)
qed

lemma isBust_snoc: "isBust hand \<Longrightarrow> isBust (hand @ [r])"
  using hard_snoc_less [of hand r] by (simp add: bust_iff_hard)

lemma bestActionEV_bust_value:
  assumes "isBust hand" "cacheAllLoss cache"
  shows "fst (bestActionEV hand ctx shoe cache) = - 1"
    and "cacheAllLoss (snd (snd (bestActionEV hand ctx shoe cache)))"
proof -
  show "fst (bestActionEV hand ctx shoe cache) = - 1"
  proof (cases "cache (cacheKey hand ctx shoe)")
    case None
    with assms show ?thesis by (simp add: bestActionEV_bust)
  next
    case (Some v)
    with assms have "v = - 1" unfolding cacheAllLoss_def by blast
    with Some show ?thesis by (simp add: bestActionEV_cached)
  qed
  show "cacheAllLoss (snd (snd (bestActionEV hand ctx shoe cache)))"
  proof (cases "cache (cacheKey hand ctx shoe)")
    case None
    with assms show ?thesis unfolding cacheAllLoss_def by (auto simp: bestActionEV_bust)
  next
    case (Some v)
    with assms show ?thesis by (simp add: bestActionEV_cached)
  qed
qed

lemma hitLoop_bust:
  assumes "isBust hand"
  shows "cacheAllLoss cache \<Longrightarrow>
     fst (hitLoop hand ctx tot rs hitEV shoe cache)
       = hitEV - (\<Sum>r\<leftarrow>rs. if shoe r \<le> 0 then 0 else rat_of_int (shoe r) / rat_of_int tot)
     \<and> cacheAllLoss (snd (snd (hitLoop hand ctx tot rs hitEV shoe cache)))"
proof (induction rs arbitrary: hitEV cache)
  case Nil
  then show ?case by simp
next
  case (Cons r rs)
  show ?case
  proof (cases "shoe r \<le> 0")
    case True
    with Cons show ?thesis by simp
  next
    case False
    have b: "isBust (hand @ [r])" using assms by (rule isBust_snoc)
    let ?call = "(if isSplitAces ctx \<and> splitAcesOneCardOnly (rules ctx)
                  then (case evStand (hand @ [r]) (upcard ctx) (rules ctx) (draw shoe r) of
                          (v, s) \<Rightarrow> (v, s, cache))
                  else bestActionEV (hand @ [r]) ctx (draw shoe r) cache)"
    have c1: "fst ?call = - 1"
      using bestActionEV_bust_value(1) [OF b Cons.prems] by (simp add: isBust_evStand [OF b])
    have c2: "fst (snd ?call) = draw shoe r"
      by (simp add: isBust_evStand [OF b] player_shoe)
    have c3: "cacheAllLoss (snd (snd ?call))"
      using bestActionEV_bust_value(2) [OF b Cons.prems] Cons.prems
      by (simp add: isBust_evStand [OF b])
    have step: "hitLoop hand ctx tot (r # rs) hitEV shoe cache
                = hitLoop hand ctx tot rs (hitEV + rat_of_int (shoe r) / rat_of_int tot * (- 1)) shoe (snd (snd ?call))"
      using False c1 c2 by (simp add: case_prod_beta undraw_draw del: if_split cong: if_cong)
    show ?thesis
      unfolding step using Cons.IH [OF c3] False by simp
  qed
qed

text \<open>The table of a busted hand. The Hit value is the negated sum of the weights (in exact
  arithmetic \<open>-1\<close> on a shoe that is not empty): every card leaves the hand bust.\<close>

lemma busted_table:
  assumes "isBust hand"
  shows "fst (actionEVsFinite hand ctx shoe)
         = [(''Stand'', - 1),
            (''Hit'', - (\<Sum>r\<leftarrow>RANKS. if shoe r \<le> 0 then 0
                           else rat_of_int (shoe r) / rat_of_int (shoeTotal shoe)))]"
proof -
  have len: "length hand \<noteq> 2" using assms two_cards_not_bust by blast
  have e: "cacheAllLoss Map.empty" by (simp add: cacheAllLoss_def)
  show ?thesis
    using len hitLoop_bust [OF assms e, of ctx "shoeTotal shoe" RANKS 0 shoe]
    by (simp add: actionEVsFinite_unfold isBust_evStand [OF assms])
qed

text \<open>The value of \<^verbatim>\<open>bestActionEV\<close> on a hand it has to work out: the greatest of the
  values of the actions that are offered.\<close>

lemma mathMax_ge_start: "x \<le> mathMax x ys"
proof (induction ys arbitrary: x)
  case Nil
  show ?case by simp
next
  case (Cons y ys)
  show ?case
  proof (cases y)
    case None
    then show ?thesis using Cons [of x] by simp
  next
    case (Some v)
    have "x \<le> max x v" by simp
    also have "\<dots> \<le> mathMax (max x v) ys" by (rule Cons)
    finally show ?thesis using Some by simp
  qed
qed

lemma mathMax_ge_member: "Some y \<in> set ys \<Longrightarrow> y \<le> mathMax x ys"
proof (induction ys arbitrary: x)
  case Nil
  then show ?case by simp
next
  case (Cons z ys)
  show ?case
  proof (cases "z = Some y")
    case True
    have "y \<le> max x y" by simp
    also have "\<dots> \<le> mathMax (max x y) ys" by (rule mathMax_ge_start)
    finally show ?thesis using True by simp
  next
    case False
    with Cons.prems have m: "Some y \<in> set ys" by simp
    show ?thesis
    proof (cases z)
      case None
      then show ?thesis using Cons.IH [OF m, of x] by simp
    next
      case (Some v)
      then show ?thesis using Cons.IH [OF m, of "max x v"] by simp
    qed
  qed
qed

lemma bestActionEV_value:
  assumes "cache (cacheKey hand ctx shoe) = None" "\<not> isBust hand"
    "\<not> ((length hand = 2 \<and> splitDepth ctx = 0) \<and> isBlackjack hand)"
  shows "fst (bestActionEV hand ctx shoe cache) =
     mathMax (fst (evStand hand (upcard ctx) (rules ctx) shoe))
       [Some (fst (hitLoop hand ctx (shoeTotal shoe) RANKS 0 shoe cache)),
        (if canDouble ctx \<and> length hand = 2 \<and> doubleAllowed (rules ctx)
         then Some (2 * fst (doubleLoop hand ctx (shoeTotal shoe) RANKS 0 shoe)) else None),
        (if lateSurrender (rules ctx) \<and> length hand = 2 \<and> splitDepth ctx = 0
         then Some (- (1 / 2)) else None),
        (if canSplit ctx \<and> length hand = 2 \<and> normalizeRank (hand ! 0) = normalizeRank (hand ! 1)
         then Some (fst (fst (splitLoop hand ctx (shoeTotal shoe) RANKS 0 0 shoe
                               (snd (snd (hitLoop hand ctx (shoeTotal shoe) RANKS 0 shoe cache)))))
                    + snd (fst (splitLoop hand ctx (shoeTotal shoe) RANKS 0 0 shoe
                               (snd (snd (hitLoop hand ctx (shoeTotal shoe) RANKS 0 shoe cache))))))
         else None)]"
proof -
  let ?dbl = "canDouble ctx \<and> length hand = 2 \<and> doubleAllowed (rules ctx)"
  let ?spl = "canSplit ctx \<and> length hand = 2 \<and> normalizeRank (hand ! 0) = normalizeRank (hand ! 1)"
  note t = bestActionEV_tree [where cache = cache and hand = hand and ctx = ctx and shoe = shoe,
      OF assms]
  show ?thesis
    by (simp add: t case_prod_beta evStand_shoe player_shoe doubleLoop_shoe)
qed


text \<open>
  C4. For every hand, context, rules and shoe, the shoe that a top-level
  \<^verbatim>\<open>actionEVsFinite\<close> call leaves equals the shoe it was given, rank by rank; the same
  holds for every frame of the recursion (\<^verbatim>\<open>bestActionEV\<close> and its loops, \<^verbatim>\<open>evStand\<close>,
  \<^verbatim>\<open>dealerOutcomeProbs\<close>, \<^verbatim>\<open>probsFor\<close>), whatever the caches hold, so a second call
  with the same inputs returns the same table.
\<close>

theorem evaluateHand_restores_shoe:
  "snd (actionEVsFinite hand ctx shoe) = shoe
   \<and> actionEVsFinite hand ctx (snd (actionEVsFinite hand ctx shoe)) = actionEVsFinite hand ctx shoe
   \<and> fst (snd (bestActionEV hand ctx shoe cache)) = shoe
   \<and> fst (snd (hitLoop hand ctx tot rs hitEV shoe cache)) = shoe
   \<and> fst (snd (splitLoop hand ctx tot rs left right shoe cache)) = shoe
   \<and> snd (doubleLoop hand ctx tot rs v2 shoe) = shoe
   \<and> snd (evStand hand up rl shoe) = shoe
   \<and> snd (evInitialBlackjack up rl shoe) = shoe
   \<and> snd (dealerOutcomeProbs up shoe rl) = shoe
   \<and> fst (snd (probsFor rl hand shoe memo)) = shoe"
  by (simp add: actionEVsFinite_unfold player_shoe doubleLoop_shoe evStand_shoe
        evInitialBlackjack_shoe dealerOutcomeProbs_shoe probs_shoe)

theorem evaluateHand_restores_shoe_witness:
  "snd (actionEVsFinite [A, R7] (appCtx DEFAULT_RULES R6 [A, R7]) (initShoeMulti 6 [[A, R7]] R6))
     = initShoeMulti 6 [[A, R7]] R6"
  using evaluateHand_restores_shoe
    [of "[A, R7]" "appCtx DEFAULT_RULES R6 [A, R7]" "initShoeMulti 6 [[A, R7]] R6"]
  by simp

text \<open>
  C7. The Surrender entry is in the table exactly when late surrender is enabled and the
  hand has two cards at split depth 0; its value is then the constant \<open>-1/2\<close>, whatever the
  shoe holds. Under the same condition the best-of value of \<^verbatim>\<open>bestActionEV\<close> is at
  least \<open>-1/2\<close>.
\<close>

theorem surrender_action:
  "map_of (fst (actionEVsFinite hand ctx shoe)) ''Surrender''
     = (if lateSurrender (rules ctx) \<and> length hand = 2 \<and> splitDepth ctx = 0
        then Some (- (1 / 2)) else None)
   \<and> (cache (cacheKey hand ctx shoe) = None \<and> \<not> isBust hand
        \<and> \<not> ((length hand = 2 \<and> splitDepth ctx = 0) \<and> isBlackjack hand)
        \<and> lateSurrender (rules ctx) \<and> length hand = 2 \<and> splitDepth ctx = 0 \<longrightarrow>
        - (1 / 2) \<le> fst (bestActionEV hand ctx shoe cache))"
proof (intro conjI impI)
  show "map_of (fst (actionEVsFinite hand ctx shoe)) ''Surrender''
     = (if lateSurrender (rules ctx) \<and> length hand = 2 \<and> splitDepth ctx = 0
        then Some (- (1 / 2)) else None)"
    by (simp add: actionEVsFinite_unfold)
next
  assume a: "cache (cacheKey hand ctx shoe) = None \<and> \<not> isBust hand
        \<and> \<not> ((length hand = 2 \<and> splitDepth ctx = 0) \<and> isBlackjack hand)
        \<and> lateSurrender (rules ctx) \<and> length hand = 2 \<and> splitDepth ctx = 0"
  then have v: "cache (cacheKey hand ctx shoe) = None" "\<not> isBust hand"
    "\<not> ((length hand = 2 \<and> splitDepth ctx = 0) \<and> isBlackjack hand)"
    by simp_all
  show "- (1 / 2) \<le> fst (bestActionEV hand ctx shoe cache)"
    unfolding bestActionEV_value [where cache = cache and hand = hand and ctx = ctx and shoe = shoe, OF v]
    using a by (intro mathMax_ge_member) simp
qed

theorem surrender_action_witness:
  "map_of (fst (actionEVsFinite [R10, R6] (appCtx DEFAULT_RULES R10 [R10, R6])
                  (initShoeMulti 6 [[R10, R6]] R10))) ''Surrender'' = Some (- (1 / 2))
   \<and> map_of (fst (actionEVsFinite [R10, R6, R2] (appCtx DEFAULT_RULES R10 [R10, R6, R2])
                  (initShoeMulti 6 [[R10, R6, R2]] R10))) ''Surrender'' = None
   \<and> - (1 / 2) \<le> fst (bestActionEV [R10, R6] (appCtx DEFAULT_RULES R10 [R10, R6])
                          (initShoeMulti 6 [[R10, R6]] R10) Map.empty)"
proof -
  have nb: "\<not> isBust [R10, R6]" by (simp add: two_cards_not_bust)
  have nj: "\<not> isBlackjack [R10, R6]" by (simp add: isBlackjack_def)
  show ?thesis
    using surrender_action [of "[R10, R6]" "appCtx DEFAULT_RULES R10 [R10, R6]"
        "initShoeMulti 6 [[R10, R6]] R10" Map.empty]
      surrender_action [of "[R10, R6, R2]" "appCtx DEFAULT_RULES R10 [R10, R6, R2]"
        "initShoeMulti 6 [[R10, R6, R2]] R10" Map.empty] nb nj
    by (simp add: appCtx_def DEFAULT_RULES_def)
qed

text \<open>
  C6. The Double entry is in the table exactly when the hand has two cards and doubling is
  permitted by the context and by the rules. Its value is then twice the sum, over the ranks
  with a positive count, of count / shoe total times the stand value of the hand with that
  card added (evaluated on the shoe with the card drawn). On a shoe without negative counts
  that is not empty the weights add up to 1, so the sum is a weighted average. Under the
  same condition the best-of value of \<^verbatim>\<open>bestActionEV\<close> is at least that value.
\<close>

theorem double_action:
  "map_of (fst (actionEVsFinite hand ctx shoe)) ''Double''
     = (if length hand = 2 \<and> canDouble ctx \<and> doubleAllowed (rules ctx)
        then Some (2 * (\<Sum>r\<leftarrow>filter (\<lambda>r. 0 < shoe r) RANKS.
                          rat_of_int (shoe r) / rat_of_int (shoeTotal shoe)
                          * fst (evStand (hand @ [r]) (upcard ctx) (rules ctx) (draw shoe r))))
        else None)
   \<and> (shoeOK shoe \<and> shoeTotal shoe \<noteq> 0 \<longrightarrow>
        (\<Sum>r\<leftarrow>filter (\<lambda>r. 0 < shoe r) RANKS. rat_of_int (shoe r) / rat_of_int (shoeTotal shoe)) = 1)
   \<and> (cache (cacheKey hand ctx shoe) = None \<and> \<not> isBust hand
        \<and> \<not> ((length hand = 2 \<and> splitDepth ctx = 0) \<and> isBlackjack hand)
        \<and> length hand = 2 \<and> canDouble ctx \<and> doubleAllowed (rules ctx) \<longrightarrow>
        2 * (\<Sum>r\<leftarrow>filter (\<lambda>r. 0 < shoe r) RANKS.
               rat_of_int (shoe r) / rat_of_int (shoeTotal shoe)
               * fst (evStand (hand @ [r]) (upcard ctx) (rules ctx) (draw shoe r)))
          \<le> fst (bestActionEV hand ctx shoe cache))"
proof (intro conjI)
  define S where "S = (\<Sum>r\<leftarrow>filter (\<lambda>r. 0 < shoe r) RANKS.
                          rat_of_int (shoe r) / rat_of_int (shoeTotal shoe)
                          * fst (evStand (hand @ [r]) (upcard ctx) (rules ctx) (draw shoe r)))"
  have dl: "fst (doubleLoop hand ctx (shoeTotal shoe) RANKS 0 shoe) = S"
    unfolding S_def by (simp only: doubleLoop_value sum_list_filter_pos add_0)
  have "map_of (fst (actionEVsFinite hand ctx shoe)) ''Double''
     = (if length hand = 2 \<and> canDouble ctx \<and> doubleAllowed (rules ctx) then Some (2 * S) else None)"
    by (simp add: actionEVsFinite_unfold dl)
  then show "map_of (fst (actionEVsFinite hand ctx shoe)) ''Double''
     = (if length hand = 2 \<and> canDouble ctx \<and> doubleAllowed (rules ctx)
        then Some (2 * (\<Sum>r\<leftarrow>filter (\<lambda>r. 0 < shoe r) RANKS.
                          rat_of_int (shoe r) / rat_of_int (shoeTotal shoe)
                          * fst (evStand (hand @ [r]) (upcard ctx) (rules ctx) (draw shoe r))))
        else None)"
    unfolding S_def .
  show "shoeOK shoe \<and> shoeTotal shoe \<noteq> 0 \<longrightarrow>
        (\<Sum>r\<leftarrow>filter (\<lambda>r. 0 < shoe r) RANKS. rat_of_int (shoe r) / rat_of_int (shoeTotal shoe)) = 1"
    by (simp add: sum_list_filter_pos weights_total)
  have "cache (cacheKey hand ctx shoe) = None \<and> \<not> isBust hand
        \<and> \<not> ((length hand = 2 \<and> splitDepth ctx = 0) \<and> isBlackjack hand)
        \<and> length hand = 2 \<and> canDouble ctx \<and> doubleAllowed (rules ctx) \<longrightarrow>
        2 * S \<le> fst (bestActionEV hand ctx shoe cache)"
  proof
    assume a: "cache (cacheKey hand ctx shoe) = None \<and> \<not> isBust hand
        \<and> \<not> ((length hand = 2 \<and> splitDepth ctx = 0) \<and> isBlackjack hand)
        \<and> length hand = 2 \<and> canDouble ctx \<and> doubleAllowed (rules ctx)"
    then have v: "cache (cacheKey hand ctx shoe) = None" "\<not> isBust hand"
      "\<not> ((length hand = 2 \<and> splitDepth ctx = 0) \<and> isBlackjack hand)"
      by simp_all
    show "2 * S \<le> fst (bestActionEV hand ctx shoe cache)"
      unfolding bestActionEV_value [where cache = cache and hand = hand and ctx = ctx and shoe = shoe, OF v]
      using a by (intro mathMax_ge_member) (simp add: dl)
  qed
  then show "cache (cacheKey hand ctx shoe) = None \<and> \<not> isBust hand
        \<and> \<not> ((length hand = 2 \<and> splitDepth ctx = 0) \<and> isBlackjack hand)
        \<and> length hand = 2 \<and> canDouble ctx \<and> doubleAllowed (rules ctx) \<longrightarrow>
        2 * (\<Sum>r\<leftarrow>filter (\<lambda>r. 0 < shoe r) RANKS.
               rat_of_int (shoe r) / rat_of_int (shoeTotal shoe)
               * fst (evStand (hand @ [r]) (upcard ctx) (rules ctx) (draw shoe r)))
          \<le> fst (bestActionEV hand ctx shoe cache)"
    unfolding S_def .
qed

lemma shoeOK_example: "shoeOK (initShoeMulti 6 [[R5, R6]] R6)"
  by (simp add: shoeOK_def initShoeMulti_def makeFullShoe_def remove_def RANKS_def)

lemma shoeTotal_example: "shoeTotal (initShoeMulti 6 [[R5, R6]] R6) = 309"
  by (simp add: shoeTotal_def initShoeMulti_def makeFullShoe_def remove_def RANKS_def)

theorem double_action_witness:
  "map_of (fst (actionEVsFinite [R5, R6] (appCtx DEFAULT_RULES R6 [R5, R6])
                  (initShoeMulti 6 [[R5, R6]] R6))) ''Double''
     = Some (2 * (\<Sum>r\<leftarrow>filter (\<lambda>r. 0 < initShoeMulti 6 [[R5, R6]] R6 r) RANKS.
                    rat_of_int (initShoeMulti 6 [[R5, R6]] R6 r) / 309
                    * fst (evStand ([R5, R6] @ [r]) R6 DEFAULT_RULES
                             (draw (initShoeMulti 6 [[R5, R6]] R6) r))))
   \<and> (\<Sum>r\<leftarrow>filter (\<lambda>r. 0 < initShoeMulti 6 [[R5, R6]] R6 r) RANKS.
         rat_of_int (initShoeMulti 6 [[R5, R6]] R6 r) / 309) = 1
   \<and> 2 * (\<Sum>r\<leftarrow>filter (\<lambda>r. 0 < initShoeMulti 6 [[R5, R6]] R6 r) RANKS.
                    rat_of_int (initShoeMulti 6 [[R5, R6]] R6 r) / 309
                    * fst (evStand ([R5, R6] @ [r]) R6 DEFAULT_RULES
                             (draw (initShoeMulti 6 [[R5, R6]] R6) r)))
       \<le> fst (bestActionEV [R5, R6] (appCtx DEFAULT_RULES R6 [R5, R6])
                 (initShoeMulti 6 [[R5, R6]] R6) Map.empty)"
proof -
  have nb: "\<not> isBust [R5, R6]" by (simp add: two_cards_not_bust)
  have nj: "\<not> isBlackjack [R5, R6]" by (simp add: isBlackjack_def)
  show ?thesis
    using double_action [of "[R5, R6]" "appCtx DEFAULT_RULES R6 [R5, R6]" "initShoeMulti 6 [[R5, R6]] R6"
        Map.empty] shoeOK_example nb nj
    by (simp add: shoeTotal_example appCtx_def DEFAULT_RULES_def)
qed

text \<open>
  C2, on the code. \<^verbatim>\<open>actionEVsFinite\<close> writes the Hit entry whatever the hand is, so
  the table of a busted hand holds two entries, Stand with value \<open>-1\<close> and Hit, where the
  bust checks of \<^verbatim>\<open>bestActionEV\<close> and \<^verbatim>\<open>evStand\<close> stop with \<open>-1\<close>. There is no Double,
  Surrender, Split or Blackjack entry.
\<close>

theorem busted_hand_table:
  "isBust hand \<Longrightarrow>
   map fst (fst (actionEVsFinite hand ctx shoe)) = [''Stand'', ''Hit'']
   \<and> map_of (fst (actionEVsFinite hand ctx shoe)) ''Stand'' = Some (- 1)
   \<and> map_of (fst (actionEVsFinite hand ctx shoe)) ''Hit'' \<noteq> None"
  by (simp add: busted_table)

lemma isBust_example: "isBust [R10, R10, R5]"
  by (simp add: bust_iff_hard handTotals_hard hardValue_def)

theorem busted_hand_table_witness:
  "isBust [R10, R10, R5]
   \<and> map fst (fst (actionEVsFinite [R10, R10, R5]
                     (appCtx (DEFAULT_RULES \<lparr> decks := 2 \<rparr>) R6 [R10, R10, R5])
                     (initShoeMulti 2 [[R10, R10, R5]] R6)))
       = [''Stand'', ''Hit'']
   \<and> map_of (fst (actionEVsFinite [R10, R10, R5]
                     (appCtx (DEFAULT_RULES \<lparr> decks := 2 \<rparr>) R6 [R10, R10, R5])
                     (initShoeMulti 2 [[R10, R10, R5]] R6))) ''Stand'' = Some (- 1)"
  using busted_hand_table [OF isBust_example,
      of "appCtx (DEFAULT_RULES \<lparr> decks := 2 \<rparr>) R6 [R10, R10, R5]"
         "initShoeMulti 2 [[R10, R10, R5]] R6"] isBust_example
  by simp

section \<open>The banker recursion\<close>

lemma probsFor_cached:
  "memo (best (handTotals cards), isSoft (handTotals cards), shoeKey shoe) = Some d \<Longrightarrow>
   probsFor rl cards shoe memo = (d, shoe, memo)"
  by (subst probsFor.simps) (simp add: Let_def)

lemma probsFor_natural:
  "memo (best (handTotals cards), isSoft (handTotals cards), shoeKey shoe) = None \<Longrightarrow>
   length cards = 2 \<Longrightarrow> best (handTotals cards) = 21 \<Longrightarrow>
   probsFor rl cards shoe memo =
     ([(Tot 21, 1)], shoe,
      memo((best (handTotals cards), isSoft (handTotals cards), shoeKey shoe) \<mapsto> [(Tot 21, 1)]))"
  by (subst probsFor.simps) (simp add: Let_def)

lemma probsFor_bust:
  "memo (best (handTotals cards), isSoft (handTotals cards), shoeKey shoe) = None \<Longrightarrow>
   21 < best (handTotals cards) \<Longrightarrow>
   probsFor rl cards shoe memo =
     ([(Bust, 1)], shoe,
      memo((best (handTotals cards), isSoft (handTotals cards), shoeKey shoe) \<mapsto> [(Bust, 1)]))"
  by (subst probsFor.simps) (simp add: Let_def)

lemma probsFor_stand:
  "memo (best (handTotals cards), isSoft (handTotals cards), shoeKey shoe) = None \<Longrightarrow>
   best (handTotals cards) \<le> 21 \<Longrightarrow> shouldStand (handTotals cards) rl \<Longrightarrow>
   probsFor rl cards shoe memo =
     ([(Tot (best (handTotals cards)), 1)], shoe,
      memo((best (handTotals cards), isSoft (handTotals cards), shoeKey shoe)
             \<mapsto> [(Tot (best (handTotals cards)), 1)]))"
  by (subst probsFor.simps) (auto simp: Let_def)

lemma natural_stands:
  "best t = 21 \<Longrightarrow> shouldStand t rl"
  by (simp add: shouldStand_def)

lemma probsFor_draw:
  "memo (best (handTotals cards), isSoft (handTotals cards), shoeKey shoe) = None \<Longrightarrow>
   best (handTotals cards) \<le> 21 \<Longrightarrow> \<not> shouldStand (handTotals cards) rl \<Longrightarrow>
   probsFor rl cards shoe memo =
     (if shoeTotal shoe = 0
      then ([], shoe, memo((best (handTotals cards), isSoft (handTotals cards), shoeKey shoe) \<mapsto> []))
      else (case probsLoop rl cards (shoeTotal shoe) RANKS [] shoe memo of
              (out, shoe', memo') \<Rightarrow>
                (out, shoe', memo'((best (handTotals cards), isSoft (handTotals cards), shoeKey shoe) \<mapsto> out))))"
  using natural_stands [of "handTotals cards" rl]
  by (subst probsFor.simps) (auto simp: Let_def)




section \<open>Split\<close>

lemma splitLoop_step:
  assumes "0 < shoe r"
  shows "splitLoop hand ctx totS (r # rs) left right shoe cache =
     (if splittingAces hand \<and> splitAcesOneCardOnly (rules ctx)
      then splitLoop hand ctx totS rs
             (left + rat_of_int (shoe r) / rat_of_int totS
                     * fst (evStand [hand ! 0, r] (upcard ctx) (rules ctx) (draw shoe r)))
             (right + rat_of_int (shoe r) / rat_of_int totS
                      * fst (evStand [hand ! 1, r] (upcard ctx) (rules ctx) (draw shoe r)))
             shoe cache
      else splitLoop hand ctx totS rs
             (left + rat_of_int (shoe r) / rat_of_int totS
                     * fst (bestActionEV [hand ! 0, r] (childCtx ctx hand) (draw shoe r) cache))
             (right + rat_of_int (shoe r) / rat_of_int totS
                      * fst (bestActionEV [hand ! 1, r] (childCtx ctx hand) (draw shoe r)
                               (snd (snd (bestActionEV [hand ! 0, r] (childCtx ctx hand) (draw shoe r) cache)))))
             shoe
             (snd (snd (bestActionEV [hand ! 1, r] (childCtx ctx hand) (draw shoe r)
                          (snd (snd (bestActionEV [hand ! 0, r] (childCtx ctx hand) (draw shoe r) cache)))))))"
  using assms
  by (simp add: case_prod_beta evStand_shoe player_shoe undraw_draw)

lemma splitLoop_aces:
  assumes "splittingAces hand \<and> splitAcesOneCardOnly (rules ctx)"
  shows "splitLoop hand ctx totS rs left right shoe cache =
          ((left + (\<Sum>r\<leftarrow>rs. if shoe r \<le> 0 then 0
                      else rat_of_int (shoe r) / rat_of_int totS
                           * fst (evStand [hand ! 0, r] (upcard ctx) (rules ctx) (draw shoe r))),
            right + (\<Sum>r\<leftarrow>rs. if shoe r \<le> 0 then 0
                      else rat_of_int (shoe r) / rat_of_int totS
                           * fst (evStand [hand ! 1, r] (upcard ctx) (rules ctx) (draw shoe r)))),
           shoe, cache)"
  using assms
  by (induction rs arbitrary: left right)
     (simp_all add: case_prod_beta evStand_shoe undraw_draw add.assoc)

text \<open>
  C8. The Split action on a pair is the split loop run on the hand under the parent
  context: it gives the Split entry of the table (present exactly for a two-card pair) and
  the split candidate of the best-of value of \<^verbatim>\<open>bestActionEV\<close> (offered when the context
  allows splitting). For every rank with a positive count the loop values the sub-hands
  \<open>[hand ! 0, r]\<close> and \<open>[hand ! 1, r]\<close> by \<^verbatim>\<open>bestActionEV\<close> under the child context, in
  which \<open>canDouble\<close> is the double-after-split setting of the context, \<open>splitDepth\<close> is the
  parent's plus one, \<open>canSplit\<close> holds only while the parent depth is below \<open>resplitPairs\<close>
  and, for a pair of aces, only if \<open>resplitAces\<close> is set. The context of \<^verbatim>\<open>App\<close> carries the
  double-after-split setting of the rules, and every child context carries it on, so in
  every context of an evaluation the child's \<open>canDouble\<close> is the rule. When aces are split
  under the one-card-only rule, each sub-hand is valued by \<^verbatim>\<open>evStand\<close> right after its one
  card: the loop is a plain weighted sum and the cache is not touched.
\<close>

theorem split_child_context:
  "childCtx ctx hand =
     ctx \<lparr> canDouble := (ctxDoubleAfterSplit ctx = Some True),
           canSplit := (splitDepth ctx < resplitPairs (rules ctx)
                        \<and> (hand ! 0 = A \<and> hand ! 1 = A \<longrightarrow> resplitAces (rules ctx))),
           splitDepth := splitDepth ctx + 1,
           isSplitAces := (hand ! 0 = A \<and> hand ! 1 = A) \<rparr>
   \<and> canDouble (childCtx (appCtx rl up hand) hand) = doubleAfterSplit rl
   \<and> ctxDoubleAfterSplit (childCtx ctx hand) = ctxDoubleAfterSplit ctx
   \<and> ctxDoubleAfterSplit (appCtx rl up hand) = Some (doubleAfterSplit (rules (appCtx rl up hand)))
   \<and> (ctxDoubleAfterSplit ctx = Some (doubleAfterSplit (rules ctx)) \<longrightarrow>
        canDouble (childCtx ctx hand) = doubleAfterSplit (rules ctx)
        \<and> ctxDoubleAfterSplit (childCtx ctx hand) = Some (doubleAfterSplit (rules (childCtx ctx hand))))
   \<and> map_of (fst (actionEVsFinite hand ctx shoe)) ''Split''
       = (if length hand = 2 \<and> normalizeRank (hand ! 0) = normalizeRank (hand ! 1)
          then Some (fst (fst (splitLoop hand ctx (shoeTotal shoe) RANKS 0 0 shoe
                                 (snd (snd (hitLoop hand ctx (shoeTotal shoe) RANKS 0 shoe Map.empty)))))
                     + snd (fst (splitLoop hand ctx (shoeTotal shoe) RANKS 0 0 shoe
                                 (snd (snd (hitLoop hand ctx (shoeTotal shoe) RANKS 0 shoe Map.empty))))))
          else None)
   \<and> (cache (cacheKey hand ctx shoe) = None \<and> \<not> isBust hand
        \<and> \<not> ((length hand = 2 \<and> splitDepth ctx = 0) \<and> isBlackjack hand) \<longrightarrow>
        fst (bestActionEV hand ctx shoe cache) =
          mathMax (fst (evStand hand (upcard ctx) (rules ctx) shoe))
            [Some (fst (hitLoop hand ctx (shoeTotal shoe) RANKS 0 shoe cache)),
             (if canDouble ctx \<and> length hand = 2 \<and> doubleAllowed (rules ctx)
              then Some (2 * fst (doubleLoop hand ctx (shoeTotal shoe) RANKS 0 shoe)) else None),
             (if lateSurrender (rules ctx) \<and> length hand = 2 \<and> splitDepth ctx = 0
              then Some (- (1 / 2)) else None),
             (if canSplit ctx \<and> length hand = 2 \<and> normalizeRank (hand ! 0) = normalizeRank (hand ! 1)
              then Some (fst (fst (splitLoop hand ctx (shoeTotal shoe) RANKS 0 0 shoe
                                    (snd (snd (hitLoop hand ctx (shoeTotal shoe) RANKS 0 shoe cache)))))
                         + snd (fst (splitLoop hand ctx (shoeTotal shoe) RANKS 0 0 shoe
                                    (snd (snd (hitLoop hand ctx (shoeTotal shoe) RANKS 0 shoe cache))))))
              else None)])
   \<and> splitLoop hand ctx totS [] left right shoe cache = ((left, right), shoe, cache)
   \<and> (shoe r \<le> 0 \<longrightarrow>
        splitLoop hand ctx totS (r # rs) left right shoe cache
          = splitLoop hand ctx totS rs left right shoe cache)
   \<and> (0 < shoe r \<longrightarrow>
        splitLoop hand ctx totS (r # rs) left right shoe cache =
          (if (hand ! 0 = A \<and> hand ! 1 = A) \<and> splitAcesOneCardOnly (rules ctx)
           then splitLoop hand ctx totS rs
                  (left + rat_of_int (shoe r) / rat_of_int totS
                          * fst (evStand [hand ! 0, r] (upcard ctx) (rules ctx) (draw shoe r)))
                  (right + rat_of_int (shoe r) / rat_of_int totS
                           * fst (evStand [hand ! 1, r] (upcard ctx) (rules ctx) (draw shoe r)))
                  shoe cache
           else splitLoop hand ctx totS rs
                  (left + rat_of_int (shoe r) / rat_of_int totS
                          * fst (bestActionEV [hand ! 0, r] (childCtx ctx hand) (draw shoe r) cache))
                  (right + rat_of_int (shoe r) / rat_of_int totS
                           * fst (bestActionEV [hand ! 1, r] (childCtx ctx hand) (draw shoe r)
                                    (snd (snd (bestActionEV [hand ! 0, r] (childCtx ctx hand) (draw shoe r) cache)))))
                  shoe
                  (snd (snd (bestActionEV [hand ! 1, r] (childCtx ctx hand) (draw shoe r)
                               (snd (snd (bestActionEV [hand ! 0, r] (childCtx ctx hand) (draw shoe r) cache))))))))
   \<and> ((hand ! 0 = A \<and> hand ! 1 = A) \<and> splitAcesOneCardOnly (rules ctx) \<longrightarrow>
        splitLoop hand ctx totS rs left right shoe cache =
          ((left + (\<Sum>r\<leftarrow>rs. if shoe r \<le> 0 then 0
                      else rat_of_int (shoe r) / rat_of_int totS
                           * fst (evStand [hand ! 0, r] (upcard ctx) (rules ctx) (draw shoe r))),
            right + (\<Sum>r\<leftarrow>rs. if shoe r \<le> 0 then 0
                      else rat_of_int (shoe r) / rat_of_int totS
                           * fst (evStand [hand ! 1, r] (upcard ctx) (rules ctx) (draw shoe r)))),
           shoe, cache))"
proof (intro conjI)
  show "childCtx ctx hand =
     ctx \<lparr> canDouble := (ctxDoubleAfterSplit ctx = Some True),
           canSplit := (splitDepth ctx < resplitPairs (rules ctx)
                        \<and> (hand ! 0 = A \<and> hand ! 1 = A \<longrightarrow> resplitAces (rules ctx))),
           splitDepth := splitDepth ctx + 1,
           isSplitAces := (hand ! 0 = A \<and> hand ! 1 = A) \<rparr>"
    by (cases "hand ! 0 = A \<and> hand ! 1 = A") (auto simp: childCtx_def canResplit_def splittingAces_def)
  show "canDouble (childCtx (appCtx rl up hand) hand) = doubleAfterSplit rl"
    by (simp add: childCtx_def appCtx_def)
  show "ctxDoubleAfterSplit (childCtx ctx hand) = ctxDoubleAfterSplit ctx"
    by (simp add: childCtx_def)
  show "ctxDoubleAfterSplit (appCtx rl up hand) = Some (doubleAfterSplit (rules (appCtx rl up hand)))"
    by (simp add: appCtx_def)
  show "(ctxDoubleAfterSplit ctx = Some (doubleAfterSplit (rules ctx)) \<longrightarrow>
        canDouble (childCtx ctx hand) = doubleAfterSplit (rules ctx)
        \<and> ctxDoubleAfterSplit (childCtx ctx hand) = Some (doubleAfterSplit (rules (childCtx ctx hand))))"
    by (auto simp: childCtx_def)
  show "map_of (fst (actionEVsFinite hand ctx shoe)) ''Split''
       = (if length hand = 2 \<and> normalizeRank (hand ! 0) = normalizeRank (hand ! 1)
          then Some (fst (fst (splitLoop hand ctx (shoeTotal shoe) RANKS 0 0 shoe
                                 (snd (snd (hitLoop hand ctx (shoeTotal shoe) RANKS 0 shoe Map.empty)))))
                     + snd (fst (splitLoop hand ctx (shoeTotal shoe) RANKS 0 0 shoe
                                 (snd (snd (hitLoop hand ctx (shoeTotal shoe) RANKS 0 shoe Map.empty))))))
          else None)"
    by (simp add: actionEVsFinite_unfold)
  show "(cache (cacheKey hand ctx shoe) = None \<and> \<not> isBust hand
        \<and> \<not> ((length hand = 2 \<and> splitDepth ctx = 0) \<and> isBlackjack hand) \<longrightarrow>
        fst (bestActionEV hand ctx shoe cache) =
          mathMax (fst (evStand hand (upcard ctx) (rules ctx) shoe))
            [Some (fst (hitLoop hand ctx (shoeTotal shoe) RANKS 0 shoe cache)),
             (if canDouble ctx \<and> length hand = 2 \<and> doubleAllowed (rules ctx)
              then Some (2 * fst (doubleLoop hand ctx (shoeTotal shoe) RANKS 0 shoe)) else None),
             (if lateSurrender (rules ctx) \<and> length hand = 2 \<and> splitDepth ctx = 0
              then Some (- (1 / 2)) else None),
             (if canSplit ctx \<and> length hand = 2 \<and> normalizeRank (hand ! 0) = normalizeRank (hand ! 1)
              then Some (fst (fst (splitLoop hand ctx (shoeTotal shoe) RANKS 0 0 shoe
                                    (snd (snd (hitLoop hand ctx (shoeTotal shoe) RANKS 0 shoe cache)))))
                         + snd (fst (splitLoop hand ctx (shoeTotal shoe) RANKS 0 0 shoe
                                    (snd (snd (hitLoop hand ctx (shoeTotal shoe) RANKS 0 shoe cache))))))
              else None)])"
  proof
    assume a: "cache (cacheKey hand ctx shoe) = None \<and> \<not> isBust hand
        \<and> \<not> ((length hand = 2 \<and> splitDepth ctx = 0) \<and> isBlackjack hand)"
    then have v: "cache (cacheKey hand ctx shoe) = None" "\<not> isBust hand"
      "\<not> ((length hand = 2 \<and> splitDepth ctx = 0) \<and> isBlackjack hand)"
      by simp_all
    show "fst (bestActionEV hand ctx shoe cache) =
          mathMax (fst (evStand hand (upcard ctx) (rules ctx) shoe))
            [Some (fst (hitLoop hand ctx (shoeTotal shoe) RANKS 0 shoe cache)),
             (if canDouble ctx \<and> length hand = 2 \<and> doubleAllowed (rules ctx)
              then Some (2 * fst (doubleLoop hand ctx (shoeTotal shoe) RANKS 0 shoe)) else None),
             (if lateSurrender (rules ctx) \<and> length hand = 2 \<and> splitDepth ctx = 0
              then Some (- (1 / 2)) else None),
             (if canSplit ctx \<and> length hand = 2 \<and> normalizeRank (hand ! 0) = normalizeRank (hand ! 1)
              then Some (fst (fst (splitLoop hand ctx (shoeTotal shoe) RANKS 0 0 shoe
                                    (snd (snd (hitLoop hand ctx (shoeTotal shoe) RANKS 0 shoe cache)))))
                         + snd (fst (splitLoop hand ctx (shoeTotal shoe) RANKS 0 0 shoe
                                    (snd (snd (hitLoop hand ctx (shoeTotal shoe) RANKS 0 shoe cache))))))
              else None)]"
      using v by (rule bestActionEV_value)
  qed
  show "splitLoop hand ctx totS [] left right shoe cache = ((left, right), shoe, cache)"
    by simp
  show "shoe r \<le> 0 \<longrightarrow>
        splitLoop hand ctx totS (r # rs) left right shoe cache
          = splitLoop hand ctx totS rs left right shoe cache"
    by simp
  show "0 < shoe r \<longrightarrow>
        splitLoop hand ctx totS (r # rs) left right shoe cache =
          (if (hand ! 0 = A \<and> hand ! 1 = A) \<and> splitAcesOneCardOnly (rules ctx)
           then splitLoop hand ctx totS rs
                  (left + rat_of_int (shoe r) / rat_of_int totS
                          * fst (evStand [hand ! 0, r] (upcard ctx) (rules ctx) (draw shoe r)))
                  (right + rat_of_int (shoe r) / rat_of_int totS
                           * fst (evStand [hand ! 1, r] (upcard ctx) (rules ctx) (draw shoe r)))
                  shoe cache
           else splitLoop hand ctx totS rs
                  (left + rat_of_int (shoe r) / rat_of_int totS
                          * fst (bestActionEV [hand ! 0, r] (childCtx ctx hand) (draw shoe r) cache))
                  (right + rat_of_int (shoe r) / rat_of_int totS
                           * fst (bestActionEV [hand ! 1, r] (childCtx ctx hand) (draw shoe r)
                                    (snd (snd (bestActionEV [hand ! 0, r] (childCtx ctx hand) (draw shoe r) cache)))))
                  shoe
                  (snd (snd (bestActionEV [hand ! 1, r] (childCtx ctx hand) (draw shoe r)
                               (snd (snd (bestActionEV [hand ! 0, r] (childCtx ctx hand) (draw shoe r) cache)))))))"
  proof
    assume "0 < shoe r"
    from splitLoop_step [where shoe = shoe and r = r and hand = hand and ctx = ctx and totS = totS
        and rs = rs and left = left and right = right and cache = cache, OF this]
    show "splitLoop hand ctx totS (r # rs) left right shoe cache =
          (if (hand ! 0 = A \<and> hand ! 1 = A) \<and> splitAcesOneCardOnly (rules ctx)
           then splitLoop hand ctx totS rs
                  (left + rat_of_int (shoe r) / rat_of_int totS
                          * fst (evStand [hand ! 0, r] (upcard ctx) (rules ctx) (draw shoe r)))
                  (right + rat_of_int (shoe r) / rat_of_int totS
                           * fst (evStand [hand ! 1, r] (upcard ctx) (rules ctx) (draw shoe r)))
                  shoe cache
           else splitLoop hand ctx totS rs
                  (left + rat_of_int (shoe r) / rat_of_int totS
                          * fst (bestActionEV [hand ! 0, r] (childCtx ctx hand) (draw shoe r) cache))
                  (right + rat_of_int (shoe r) / rat_of_int totS
                           * fst (bestActionEV [hand ! 1, r] (childCtx ctx hand) (draw shoe r)
                                    (snd (snd (bestActionEV [hand ! 0, r] (childCtx ctx hand) (draw shoe r) cache)))))
                  shoe
                  (snd (snd (bestActionEV [hand ! 1, r] (childCtx ctx hand) (draw shoe r)
                               (snd (snd (bestActionEV [hand ! 0, r] (childCtx ctx hand) (draw shoe r) cache)))))))"
      unfolding splittingAces_def .
  qed
  show "((hand ! 0 = A \<and> hand ! 1 = A) \<and> splitAcesOneCardOnly (rules ctx) \<longrightarrow>
        splitLoop hand ctx totS rs left right shoe cache =
          ((left + (\<Sum>r\<leftarrow>rs. if shoe r \<le> 0 then 0
                      else rat_of_int (shoe r) / rat_of_int totS
                           * fst (evStand [hand ! 0, r] (upcard ctx) (rules ctx) (draw shoe r))),
            right + (\<Sum>r\<leftarrow>rs. if shoe r \<le> 0 then 0
                      else rat_of_int (shoe r) / rat_of_int totS
                           * fst (evStand [hand ! 1, r] (upcard ctx) (rules ctx) (draw shoe r)))),
           shoe, cache))"
  proof
    assume "(hand ! 0 = A \<and> hand ! 1 = A) \<and> splitAcesOneCardOnly (rules ctx)"
    then have "splittingAces hand \<and> splitAcesOneCardOnly (rules ctx)"
      by (simp add: splittingAces_def)
    then show "splitLoop hand ctx totS rs left right shoe cache =
          ((left + (\<Sum>r\<leftarrow>rs. if shoe r \<le> 0 then 0
                      else rat_of_int (shoe r) / rat_of_int totS
                           * fst (evStand [hand ! 0, r] (upcard ctx) (rules ctx) (draw shoe r))),
            right + (\<Sum>r\<leftarrow>rs. if shoe r \<le> 0 then 0
                      else rat_of_int (shoe r) / rat_of_int totS
                           * fst (evStand [hand ! 1, r] (upcard ctx) (rules ctx) (draw shoe r)))),
           shoe, cache)"
      by (rule splitLoop_aces)
  qed
qed

lemma shoe_example_aces:
  "initShoeMulti 6 [[A, A]] R6 R5 = 24" "shoeTotal (initShoeMulti 6 [[A, A]] R6) = 309"
  by (simp_all add: shoeTotal_def initShoeMulti_def makeFullShoe_def remove_def RANKS_def)

theorem split_child_context_witness:
  "childCtx (appCtx DEFAULT_RULES R6 [R8, R8]) [R8, R8] =
     \<lparr> rules = DEFAULT_RULES, upcard = R6, canDouble = True, canSplit = True, splitDepth = 1,
       isSplitAces = False, ctxDoubleAfterSplit = Some True \<rparr>
   \<and> childCtx (appCtx DEFAULT_RULES R6 [A, A]) [A, A] =
     \<lparr> rules = DEFAULT_RULES, upcard = R6, canDouble = True, canSplit = False, splitDepth = 1,
       isSplitAces = True, ctxDoubleAfterSplit = Some True \<rparr>
   \<and> canDouble (childCtx (childCtx (appCtx (DEFAULT_RULES \<lparr> doubleAfterSplit := False \<rparr>) R6 [R8, R8])
                   [R8, R8]) [R8, R8]) = False
   \<and> splitLoop [A, A] (appCtx DEFAULT_RULES R6 [A, A]) 309 [R5] 0 0 (initShoeMulti 6 [[A, A]] R6) Map.empty
       = ((24 / 309 * fst (evStand [A, R5] R6 DEFAULT_RULES (draw (initShoeMulti 6 [[A, A]] R6) R5)),
           24 / 309 * fst (evStand [A, R5] R6 DEFAULT_RULES (draw (initShoeMulti 6 [[A, A]] R6) R5))),
          initShoeMulti 6 [[A, A]] R6, Map.empty)
   \<and> map_of (fst (actionEVsFinite [A, A] (appCtx DEFAULT_RULES R6 [A, A])
                     (initShoeMulti 6 [[A, A]] R6))) ''Split''
       = Some ((\<Sum>r\<leftarrow>RANKS. if initShoeMulti 6 [[A, A]] R6 r \<le> 0 then 0
                   else rat_of_int (initShoeMulti 6 [[A, A]] R6 r) / 309
                        * fst (evStand [A, r] R6 DEFAULT_RULES (draw (initShoeMulti 6 [[A, A]] R6) r)))
               + (\<Sum>r\<leftarrow>RANKS. if initShoeMulti 6 [[A, A]] R6 r \<le> 0 then 0
                   else rat_of_int (initShoeMulti 6 [[A, A]] R6 r) / 309
                        * fst (evStand [A, r] R6 DEFAULT_RULES (draw (initShoeMulti 6 [[A, A]] R6) r))))
   \<and> map_of (fst (actionEVsFinite [R8, R7] (appCtx DEFAULT_RULES R6 [R8, R7])
                     (initShoeMulti 6 [[R8, R7]] R6))) ''Split'' = None"
proof -
  let ?s = "initShoeMulti 6 [[A, A]] R6"
  let ?cA = "appCtx DEFAULT_RULES R6 [A, A]"
  let ?c8 = "appCtx DEFAULT_RULES R6 [R8, R8]"
  let ?cN = "appCtx (DEFAULT_RULES \<lparr> doubleAfterSplit := False \<rparr>) R6 [R8, R8]"
  have a1: "childCtx ?c8 [R8, R8] =
     \<lparr> rules = DEFAULT_RULES, upcard = R6, canDouble = True, canSplit = True, splitDepth = 1,
       isSplitAces = False, ctxDoubleAfterSplit = Some True \<rparr>"
    using split_child_context [of ?c8 "[R8, R8]" DEFAULT_RULES R6 ?s Map.empty 309 0 0 R5 "[]"]
    by (simp add: appCtx_def DEFAULT_RULES_def canSplitHand_def normalizeRank_def)
  have a2: "childCtx ?cA [A, A] =
     \<lparr> rules = DEFAULT_RULES, upcard = R6, canDouble = True, canSplit = False, splitDepth = 1,
       isSplitAces = True, ctxDoubleAfterSplit = Some True \<rparr>"
    using split_child_context [of ?cA "[A, A]" DEFAULT_RULES R6 ?s Map.empty 309 0 0 R5 "[]"]
    by (simp add: appCtx_def DEFAULT_RULES_def canSplitHand_def normalizeRank_def)
  have a3: "canDouble (childCtx (childCtx ?cN [R8, R8]) [R8, R8]) = False"
    using split_child_context [of ?cN "[R8, R8]" "DEFAULT_RULES \<lparr> doubleAfterSplit := False \<rparr>" R6 ?s
        Map.empty 309 0 0 R5 "[]"]
      split_child_context [of "childCtx ?cN [R8, R8]" "[R8, R8]"
        "DEFAULT_RULES \<lparr> doubleAfterSplit := False \<rparr>" R6 ?s Map.empty 309 0 0 R5 "[]"]
    by (simp add: appCtx_def DEFAULT_RULES_def)
  have a4: "splitLoop [A, A] ?cA 309 [R5] 0 0 ?s Map.empty
       = ((24 / 309 * fst (evStand [A, R5] R6 DEFAULT_RULES (draw ?s R5)),
           24 / 309 * fst (evStand [A, R5] R6 DEFAULT_RULES (draw ?s R5))), ?s, Map.empty)"
    using split_child_context [of ?cA "[A, A]" DEFAULT_RULES R6 ?s Map.empty 309 0 0 R5 "[]"]
    by (simp add: shoe_example_aces appCtx_def DEFAULT_RULES_def)
  let ?c = "snd (snd (hitLoop [A, A] ?cA 309 RANKS 0 ?s Map.empty))"
  have a5: "map_of (fst (actionEVsFinite [A, A] ?cA ?s)) ''Split''
       = Some ((\<Sum>r\<leftarrow>RANKS. if ?s r \<le> 0 then 0
                   else rat_of_int (?s r) / 309 * fst (evStand [A, r] R6 DEFAULT_RULES (draw ?s r)))
               + (\<Sum>r\<leftarrow>RANKS. if ?s r \<le> 0 then 0
                   else rat_of_int (?s r) / 309 * fst (evStand [A, r] R6 DEFAULT_RULES (draw ?s r))))"
    using split_child_context [of ?cA "[A, A]" DEFAULT_RULES R6 ?s ?c 309 0 0 R5 RANKS]
    by (simp add: shoe_example_aces appCtx_def DEFAULT_RULES_def normalizeRank_def cong: if_cong)
  have a6: "map_of (fst (actionEVsFinite [R8, R7] (appCtx DEFAULT_RULES R6 [R8, R7])
                     (initShoeMulti 6 [[R8, R7]] R6))) ''Split'' = None"
    using split_child_context [of "appCtx DEFAULT_RULES R6 [R8, R7]" "[R8, R7]" DEFAULT_RULES R6
        "initShoeMulti 6 [[R8, R7]] R6" Map.empty 309 0 0 R5 "[]"]
    by (simp add: normalizeRank_def)
  from a1 a2 a3 a4 a5 a6 show ?thesis by simp
qed

section \<open>Empty shoe\<close>

lemma probsLoop_skip:
  "(\<And>r. r \<in> set rs \<Longrightarrow> shoe r \<le> 0) \<Longrightarrow> probsLoop rl cards tot rs out shoe memo = (out, shoe, memo)"
  by (induction rs) simp_all

lemma holeLoop_skip:
  "(\<And>r. r \<in> set rs \<Longrightarrow> shoe r \<le> 0) \<Longrightarrow> holeLoop rl up tot rs dst shoe memo = (dst, shoe, memo)"
  by (induction rs) simp_all

lemma hitLoop_skip:
  "(\<And>r. r \<in> set rs \<Longrightarrow> shoe r \<le> 0) \<Longrightarrow> hitLoop hand ctx tot rs hitEV shoe cache = (hitEV, shoe, cache)"
  by (induction rs) simp_all

lemma doubleLoop_skip:
  "(\<And>r. r \<in> set rs \<Longrightarrow> shoe r \<le> 0) \<Longrightarrow> doubleLoop hand ctx tot rs v2 shoe = (v2, shoe)"
  by (induction rs) simp_all

lemma splitLoop_skip:
  "(\<And>r. r \<in> set rs \<Longrightarrow> shoe r \<le> 0) \<Longrightarrow>
   splitLoop hand ctx tot rs left right shoe cache = ((left, right), shoe, cache)"
  by (induction rs) simp_all

text \<open>
  C9. On a shoe without negative counts, a rank passes the guard of a drawing loop only if
  the shoe total is not 0, so no weight is ever divided by 0. When the total is 0 every rank
  is skipped: the banker recursion returns the empty distribution for a hand that has to
  draw, \<^verbatim>\<open>dealerOutcomeProbs\<close> returns the empty distribution, the hit, double and split
  loops leave their accumulators at 0, the table has Hit with value 0, and the evaluation
  returns with the shoe as it was.
\<close>

theorem empty_shoe_contributes_nothing:
  "(shoeOK shoe \<and> 0 < shoe r \<longrightarrow> shoeTotal shoe \<noteq> 0)
   \<and> (shoeOK shoe \<and> shoeTotal shoe = 0 \<longrightarrow>
        (\<forall>r'. shoe r' \<le> 0)
        \<and> (memo (best (handTotals cards), isSoft (handTotals cards), shoeKey shoe) = None
             \<and> best (handTotals cards) \<le> 21 \<and> \<not> shouldStand (handTotals cards) rl \<longrightarrow>
             probsFor rl cards shoe memo
               = ([], shoe, memo((best (handTotals cards), isSoft (handTotals cards), shoeKey shoe) \<mapsto> [])))
        \<and> dealerOutcomeProbs up shoe rl = ([], shoe)
        \<and> hitLoop hand ctx (shoeTotal shoe) RANKS 0 shoe cache = (0, shoe, cache)
        \<and> doubleLoop hand ctx (shoeTotal shoe) RANKS 0 shoe = (0, shoe)
        \<and> splitLoop hand ctx (shoeTotal shoe) RANKS 0 0 shoe cache = ((0, 0), shoe, cache)
        \<and> map_of (fst (actionEVsFinite hand ctx shoe)) ''Hit'' = Some 0
        \<and> snd (actionEVsFinite hand ctx shoe) = shoe)"
proof (intro conjI impI)
  assume "shoeOK shoe \<and> 0 < shoe r"
  then show "shoeTotal shoe \<noteq> 0" using empty_shoe_counts [of shoe r] by auto
next
  assume a: "shoeOK shoe \<and> shoeTotal shoe = 0"
  then have z: "\<And>r'. shoe r' \<le> 0" using empty_shoe_counts [of shoe] by simp
  then show "\<forall>r'. shoe r' \<le> 0" by simp
  show "dealerOutcomeProbs up shoe rl = ([], shoe)"
    using z by (simp add: dealerOutcomeProbs_def holeLoop_skip)
  show "hitLoop hand ctx (shoeTotal shoe) RANKS 0 shoe cache = (0, shoe, cache)"
    using z by (simp add: hitLoop_skip)
  show "doubleLoop hand ctx (shoeTotal shoe) RANKS 0 shoe = (0, shoe)"
    using z by (simp add: doubleLoop_skip)
  show "splitLoop hand ctx (shoeTotal shoe) RANKS 0 0 shoe cache = ((0, 0), shoe, cache)"
    using z by (simp add: splitLoop_skip)
  show "map_of (fst (actionEVsFinite hand ctx shoe)) ''Hit'' = Some 0"
    using z by (simp add: actionEVsFinite_unfold hitLoop_skip)
  show "snd (actionEVsFinite hand ctx shoe) = shoe"
    by (simp add: actionEVsFinite_unfold)
next
  assume a: "shoeOK shoe \<and> shoeTotal shoe = 0"
    and b: "memo (best (handTotals cards), isSoft (handTotals cards), shoeKey shoe) = None
             \<and> best (handTotals cards) \<le> 21 \<and> \<not> shouldStand (handTotals cards) rl"
  then show "probsFor rl cards shoe memo
               = ([], shoe, memo((best (handTotals cards), isSoft (handTotals cards), shoeKey shoe) \<mapsto> []))"
    by (simp add: probsFor_draw)
qed

lemma wholeDeck_empty: "initShoeMulti 1 wholeDeck R6 = (\<lambda>r. 0)"
proof
  fix r
  show "initShoeMulti 1 wholeDeck R6 r = 0"
    by (cases r) (simp_all add: initShoeMulti_def wholeDeck_def makeFullShoe_def remove_def RANKS_def)
qed

theorem empty_shoe_contributes_nothing_witness:
  "shoeOK (initShoeMulti 1 wholeDeck R6) \<and> shoeTotal (initShoeMulti 1 wholeDeck R6) = 0
   \<and> dealerOutcomeProbs R6 (initShoeMulti 1 wholeDeck R6) DEFAULT_RULES
       = ([], initShoeMulti 1 wholeDeck R6)
   \<and> fst (probsFor DEFAULT_RULES [R6, R5] (initShoeMulti 1 wholeDeck R6) Map.empty) = []
   \<and> map_of (fst (actionEVsFinite [R5, R6] (appCtx DEFAULT_RULES R6 [R5, R6])
                     (initShoeMulti 1 wholeDeck R6))) ''Hit'' = Some 0"
proof -
  have ok: "shoeOK (initShoeMulti 1 wholeDeck R6)"
    by (simp add: wholeDeck_empty shoeOK_def RANKS_def)
  have t: "shoeTotal (initShoeMulti 1 wholeDeck R6) = 0"
    by (simp add: wholeDeck_empty shoeTotal_def RANKS_def)
  have h: "best (handTotals [R6, R5]) = 11" "\<not> isSoft (handTotals [R6, R5])"
    by (simp_all add: handTotals_best handTotals_isSoft handTotals_hard hardValue_def)
  then have ns: "\<not> shouldStand (handTotals [R6, R5]) DEFAULT_RULES"
    by (simp add: shouldStand_def)
  show ?thesis
    using empty_shoe_contributes_nothing [of "initShoeMulti 1 wholeDeck R6" R6 Map.empty "[R6, R5]"
        DEFAULT_RULES R6 "[R5, R6]" "appCtx DEFAULT_RULES R6 [R5, R6]" Map.empty] ok t h ns
    by simp
qed

section \<open>The banker distribution adds up\<close>

lemma distSum_setKey: "distSum (setKey out k (getOr0 out k + x)) = distSum out + x"
  by (induction out) (auto simp: distSum_def getOr0_def)

lemma keysOK_setKey: "okKey k \<Longrightarrow> keysOK out \<Longrightarrow> keysOK (setKey out k v)"
  by (induction out) (auto simp: keysOK_def)

lemma distSum_mixInto: "distSum (mixInto out p nxt) = distSum out + p * distSum nxt"
proof -
  have "distSum (fold (\<lambda>kv acc. setKey acc (fst kv) (getOr0 acc (fst kv) + p * snd kv)) nxt out)
        = distSum out + p * sum_list (map snd nxt)"
    by (induction nxt arbitrary: out) (simp_all add: distSum_setKey distrib_left)
  then show ?thesis by (simp add: mixInto_def distSum_def)
qed

lemma keysOK_mixInto: "keysOK out \<Longrightarrow> keysOK nxt \<Longrightarrow> keysOK (mixInto out p nxt)"
proof -
  have "keysOK out \<Longrightarrow> keysOK nxt \<Longrightarrow>
        keysOK (fold (\<lambda>kv acc. setKey acc (fst kv) (getOr0 acc (fst kv) + p * snd kv)) nxt out)"
  proof (induction nxt arbitrary: out)
    case Nil
    then show ?case by simp
  next
    case (Cons kv nxt)
    from Cons.prems(2) have k: "okKey (fst kv)" and n: "keysOK nxt"
      by (simp_all add: keysOK_def)
    show ?case
      using Cons.IH [OF keysOK_setKey [OF k Cons.prems(1)] n] by simp
  qed
  then show "keysOK out \<Longrightarrow> keysOK nxt \<Longrightarrow> keysOK (mixInto out p nxt)"
    by (simp add: mixInto_def)
qed

lemma stand_range: "shouldStand t rl \<Longrightarrow> 17 \<le> best t \<and> best t \<le> 21"
  by (auto simp: shouldStand_def split: if_splits)

lemma memoKeysOK_upd: "memoKeysOK memo \<Longrightarrow> keysOK d \<Longrightarrow> memoKeysOK (memo(key \<mapsto> d))"
  by (simp add: memoKeysOK_def)

lemma memoSums_upd: "memoSums memo \<Longrightarrow> distSum d = 1 \<Longrightarrow> memoSums (memo(key \<mapsto> d))"
  by (simp add: memoSums_def)

lemma probs_keys:
  "memoKeysOK memo \<longrightarrow>
     keysOK (fst (probsFor rl cards shoe memo)) \<and> memoKeysOK (snd (snd (probsFor rl cards shoe memo)))"
  "memoKeysOK memo \<longrightarrow> keysOK out \<longrightarrow>
     keysOK (fst (probsLoop rl cards tot rs out shoe memo))
     \<and> memoKeysOK (snd (snd (probsLoop rl cards tot rs out shoe memo)))"
proof (induction rl cards shoe memo and rl cards tot rs out shoe memo rule: probsFor_probsLoop.induct)
  case (1 rl cards shoe memo)
  let ?key = "(best (handTotals cards), isSoft (handTotals cards), shoeKey shoe)"
  show ?case
  proof
    assume m: "memoKeysOK memo"
    show "keysOK (fst (probsFor rl cards shoe memo)) \<and> memoKeysOK (snd (snd (probsFor rl cards shoe memo)))"
    proof (cases "memo ?key")
      case (Some d)
      with m have "keysOK d" unfolding memoKeysOK_def by blast
      with Some m show ?thesis by (simp add: probsFor_cached)
    next
      case None
      show ?thesis
      proof (cases "21 < best (handTotals cards)")
        case True
        have "keysOK [(Bust, 1)]" by (simp add: keysOK_def okKey_def)
        with None True m show ?thesis by (simp add: probsFor_bust memoKeysOK_upd)
      next
        case nb: False
        show ?thesis
        proof (cases "shouldStand (handTotals cards) rl")
          case True
          with stand_range [OF True] have "keysOK [(Tot (best (handTotals cards)), 1)]"
            by (simp add: keysOK_def okKey_def)
          with None nb True m show ?thesis by (simp add: probsFor_stand memoKeysOK_upd)
        next
          case ns: False
          show ?thesis
          proof (cases "shoeTotal shoe = 0")
            case True
            have "keysOK []" by (simp add: keysOK_def)
            with None nb ns True m show ?thesis by (simp add: probsFor_draw memoKeysOK_upd)
          next
            case False
            have nn: "\<not> (length cards = 2 \<and> best (handTotals cards) = 21)"
              using ns natural_stands [of "handTotals cards" rl] by auto
            have e: "keysOK []" by (simp add: keysOK_def)
            from "1.IH" [OF refl refl None nn nb ns False] m e
            have "keysOK (fst (probsLoop rl cards (shoeTotal shoe) RANKS [] shoe memo))
                  \<and> memoKeysOK (snd (snd (probsLoop rl cards (shoeTotal shoe) RANKS [] shoe memo)))"
              by simp
            with None nb ns False show ?thesis
              by (simp add: probsFor_draw case_prod_beta memoKeysOK_upd)
          qed
        qed
      qed
    qed
  qed
next
  case (2 rl cards tot out shoe memo)
  show ?case by simp
next
  case (3 rl cards tot r rs out shoe memo)
  show ?case
  proof (cases "shoe r \<le> 0")
    case True
    with "3.IH"(1) show ?thesis by simp
  next
    case False
    let ?x = "probsFor rl (cards @ [r]) (draw shoe r) memo"
    have step: "probsLoop rl cards tot (r # rs) out shoe memo
                = probsLoop rl cards tot rs (mixInto out (rat_of_int (shoe r) / rat_of_int tot) (fst ?x))
                    (undraw (fst (snd ?x)) r) (snd (snd ?x))"
      using False by (simp add: case_prod_beta)
    show ?thesis
    proof (intro impI)
      assume m: "memoKeysOK memo" and o: "keysOK out"
      from "3.IH"(2) [OF False] m have x: "keysOK (fst ?x)" "memoKeysOK (snd (snd ?x))" by simp_all
      from "3.IH"(3) [OF False prod.collapse prod.collapse]
        x keysOK_mixInto [OF o x(1)]
      show "keysOK (fst (probsLoop rl cards tot (r # rs) out shoe memo))
            \<and> memoKeysOK (snd (snd (probsLoop rl cards tot (r # rs) out shoe memo)))"
        unfolding step by simp
    qed
  qed
qed

lemma shoeOK_iff: "shoeOK s \<longleftrightarrow> (\<forall>r. 0 \<le> s r)"
  using RANKS_all by (auto simp: shoeOK_def list_all_iff)

lemma shoeOK_draw: "shoeOK s \<Longrightarrow> 0 < s r \<Longrightarrow> shoeOK (draw s r)"
  by (simp add: shoeOK_iff draw_def)

lemma shoeTotal_draw: "shoeTotal (draw s r) = shoeTotal s - 1"
  by (cases r) (simp_all add: shoeTotal_def RANKS_def draw_def)

lemma must_draw_hard:
  "\<not> 21 < best (handTotals cards) \<Longrightarrow> \<not> shouldStand (handTotals cards) rl \<Longrightarrow>
   hard (handTotals cards) < 17"
  using handTotals_best [of cards] by (auto simp: shouldStand_def split: if_splits)

lemma probs_sums:
  "memoSums memo \<longrightarrow> shoeOK shoe \<longrightarrow> 17 \<le> hard (handTotals cards) + shoeTotal shoe \<longrightarrow>
     distSum (fst (probsFor rl cards shoe memo)) = 1
     \<and> memoSums (snd (snd (probsFor rl cards shoe memo)))"
  "memoSums memo \<longrightarrow> shoeOK shoe \<longrightarrow> 17 \<le> hard (handTotals cards) + shoeTotal shoe \<longrightarrow>
     distSum (fst (probsLoop rl cards tot rs out shoe memo))
       = distSum out + (\<Sum>r\<leftarrow>rs. if shoe r \<le> 0 then 0 else rat_of_int (shoe r) / rat_of_int tot)
     \<and> memoSums (snd (snd (probsLoop rl cards tot rs out shoe memo)))"
proof (induction rl cards shoe memo and rl cards tot rs out shoe memo rule: probsFor_probsLoop.induct)
  case (1 rl cards shoe memo)
  let ?key = "(best (handTotals cards), isSoft (handTotals cards), shoeKey shoe)"
  show ?case
  proof (intro impI)
    assume m: "memoSums memo" and ok: "shoeOK shoe"
      and en: "17 \<le> hard (handTotals cards) + shoeTotal shoe"
    show "distSum (fst (probsFor rl cards shoe memo)) = 1
          \<and> memoSums (snd (snd (probsFor rl cards shoe memo)))"
    proof (cases "memo ?key")
      case (Some d)
      with m have "distSum d = 1" unfolding memoSums_def by blast
      with Some m show ?thesis by (simp add: probsFor_cached)
    next
      case None
      show ?thesis
      proof (cases "21 < best (handTotals cards)")
        case True
        have "distSum [(Bust, 1)] = 1" by (simp add: distSum_def)
        with None True m show ?thesis by (simp add: probsFor_bust memoSums_upd)
      next
        case nb: False
        show ?thesis
        proof (cases "shouldStand (handTotals cards) rl")
          case True
          have "distSum [(Tot (best (handTotals cards)), 1)] = 1" by (simp add: distSum_def)
          with None nb True m show ?thesis by (simp add: probsFor_stand memoSums_upd)
        next
          case ns: False
          from must_draw_hard [OF nb ns] en have nz: "shoeTotal shoe \<noteq> 0" by simp
          have nn: "\<not> (length cards = 2 \<and> best (handTotals cards) = 21)"
            using ns natural_stands [of "handTotals cards" rl] by auto
          from "1.IH" [OF refl refl None nn nb ns nz] m ok en
          have "distSum (fst (probsLoop rl cards (shoeTotal shoe) RANKS [] shoe memo)) = 1
                \<and> memoSums (snd (snd (probsLoop rl cards (shoeTotal shoe) RANKS [] shoe memo)))"
            by (simp add: weights_total [OF ok nz] distSum_def)
          with None nb ns nz show ?thesis
            by (simp add: probsFor_draw case_prod_beta memoSums_upd)
        qed
      qed
    qed
  qed
next
  case (2 rl cards tot out shoe memo)
  show ?case by simp
next
  case (3 rl cards tot r rs out shoe memo)
  show ?case
  proof (cases "shoe r \<le> 0")
    case True
    with "3.IH"(1) show ?thesis by simp
  next
    case False
    let ?x = "probsFor rl (cards @ [r]) (draw shoe r) memo"
    have sh: "fst (snd ?x) = draw shoe r" by (rule probs_shoe)
    have step: "probsLoop rl cards tot (r # rs) out shoe memo
                = probsLoop rl cards tot rs (mixInto out (rat_of_int (shoe r) / rat_of_int tot) (fst ?x))
                    shoe (snd (snd ?x))"
      using False by (simp add: case_prod_beta sh undraw_draw)
    show ?thesis
    proof (intro impI)
      assume m: "memoSums memo" and ok: "shoeOK shoe"
        and en: "17 \<le> hard (handTotals cards) + shoeTotal shoe"
      have ok': "shoeOK (draw shoe r)" using ok False by (simp add: shoeOK_draw)
      have en': "17 \<le> hard (handTotals (cards @ [r])) + shoeTotal (draw shoe r)"
        using en hardValue_ge1 [of r] by (simp add: hard_snoc shoeTotal_draw)
      from "3.IH"(2) [OF False] m ok' en'
      have x: "distSum (fst ?x) = 1" "memoSums (snd (snd ?x))" by simp_all
      from "3.IH"(3) [OF False prod.collapse prod.collapse, unfolded sh undraw_draw] x ok en
      show "distSum (fst (probsLoop rl cards tot (r # rs) out shoe memo))
              = distSum out + (\<Sum>r\<leftarrow>r # rs. if shoe r \<le> 0 then 0 else rat_of_int (shoe r) / rat_of_int tot)
            \<and> memoSums (snd (snd (probsLoop rl cards tot (r # rs) out shoe memo)))"
        unfolding step using False by (simp add: distSum_mixInto)
    qed
  qed
qed

lemma holeLoop_keys:
  "memoKeysOK memo \<Longrightarrow> keysOK dst \<Longrightarrow>
   keysOK (fst (holeLoop rl up tot rs dst shoe memo))"
proof (induction rs arbitrary: dst memo)
  case Nil
  then show ?case by simp
next
  case (Cons r rs)
  let ?x = "probsFor rl [up, r] (draw shoe r) memo"
  have sh: "fst (snd ?x) = draw shoe r" by (rule probs_shoe)
  from probs_keys(1) [of memo rl "[up, r]" "draw shoe r"] Cons.prems(1)
  have x: "keysOK (fst ?x)" "memoKeysOK (snd (snd ?x))" by simp_all
  show ?case
    using Cons.IH [OF Cons.prems] Cons.IH [OF x(2) keysOK_mixInto [OF Cons.prems(2) x(1)]]
    by (simp add: case_prod_beta sh undraw_draw)
qed

lemma holeLoop_sums:
  assumes "shoeOK shoe" "17 \<le> hardValue up + shoeTotal shoe"
  shows "memoSums memo \<Longrightarrow>
   distSum (fst (holeLoop rl up tot rs dst shoe memo))
     = distSum dst + (\<Sum>r\<leftarrow>rs. if shoe r \<le> 0 then 0 else rat_of_int (shoe r) / rat_of_int tot)"
proof (induction rs arbitrary: dst memo)
  case Nil
  then show ?case by simp
next
  case (Cons r rs)
  show ?case
  proof (cases "shoe r \<le> 0")
    case True
    with Cons show ?thesis by simp
  next
    case False
    let ?x = "probsFor rl [up, r] (draw shoe r) memo"
    have sh: "fst (snd ?x) = draw shoe r" by (rule probs_shoe)
    have ok': "shoeOK (draw shoe r)" using assms(1) False by (simp add: shoeOK_draw)
    have en': "17 \<le> hard (handTotals [up, r]) + shoeTotal (draw shoe r)"
      using assms(2) hardValue_ge1 [of r] by (simp add: handTotals_hard shoeTotal_draw)
    from probs_sums(1) [of memo "draw shoe r" "[up, r]" rl] Cons.prems ok' en'
    have x: "distSum (fst ?x) = 1" "memoSums (snd (snd ?x))" by simp_all
    show ?thesis
      using False Cons.IH [OF x(2)] x(1)
      by (simp add: case_prod_beta sh undraw_draw distSum_mixInto)
  qed
qed

text \<open>
  C3 (as the code has it). For every shoe, upcard and rules, every outcome key of the
  distribution that \<^verbatim>\<open>dealerOutcomeProbs\<close> returns is one of 17, 18, 19, 20, 21 and bust.
  When no count of the shoe is negative and the shoe total plus the hard value of the upcard
  is at least 17 (so for every shoe of 16 cards or more), the banker cannot run out of cards
  and the probabilities add up to exactly 1 in exact arithmetic.
\<close>

theorem banker_distribution_total:
  "keysOK (fst (dealerOutcomeProbs up shoe rl))
   \<and> (shoeOK shoe \<and> 17 \<le> shoeTotal shoe + hardValue up \<longrightarrow>
        distSum (fst (dealerOutcomeProbs up shoe rl)) = 1)"
proof (intro conjI impI)
  have "memoKeysOK Map.empty" "keysOK []" by (simp_all add: memoKeysOK_def keysOK_def)
  from holeLoop_keys [OF this, of rl up "shoeTotal shoe" RANKS shoe]
  show "keysOK (fst (dealerOutcomeProbs up shoe rl))"
    by (simp add: dealerOutcomeProbs_def case_prod_beta)
next
  assume a: "shoeOK shoe \<and> 17 \<le> shoeTotal shoe + hardValue up"
  then have ok: "shoeOK shoe" and en: "17 \<le> hardValue up + shoeTotal shoe" by simp_all
  have "hardValue up \<le> 10" by (cases up) (simp_all add: hardValue_def)
  with en have nz: "shoeTotal shoe \<noteq> 0" by simp
  have "memoSums Map.empty" by (simp add: memoSums_def)
  from holeLoop_sums [OF ok en this, of rl "shoeTotal shoe" RANKS "[]"] weights_total [OF ok nz]
  show "distSum (fst (dealerOutcomeProbs up shoe rl)) = 1"
    by (simp add: dealerOutcomeProbs_def case_prod_beta distSum_def)
qed

theorem banker_distribution_total_witness:
  "shoeOK (initShoeMulti 6 [[R5, R6]] R6)
   \<and> 17 \<le> shoeTotal (initShoeMulti 6 [[R5, R6]] R6) + hardValue R6
   \<and> keysOK (fst (dealerOutcomeProbs R6 (initShoeMulti 6 [[R5, R6]] R6) DEFAULT_RULES))
   \<and> distSum (fst (dealerOutcomeProbs R6 (initShoeMulti 6 [[R5, R6]] R6) DEFAULT_RULES)) = 1"
  using banker_distribution_total [of R6 "initShoeMulti 6 [[R5, R6]] R6" DEFAULT_RULES]
    shoeOK_example
  by (simp add: shoeTotal_example hardValue_def)

lemma oneTwoLeft_shoe: "initShoeMulti 1 oneTwoLeft R2 = (\<lambda>r. 0)(R2 := 1)"
proof
  fix r
  show "initShoeMulti 1 oneTwoLeft R2 r = ((\<lambda>r. 0)(R2 := 1)) r"
    by (cases r) (simp_all add: initShoeMulti_def oneTwoLeft_def makeFullShoe_def remove_def RANKS_def)
qed

text \<open>C3 as stated fails: one deck with a single 2 left in the shoe, upcard 2. The banker
  draws the 2, has to draw again from the empty shoe, and the distribution is empty.\<close>

theorem banker_distribution_short_shoe:
  "0 < shoeTotal (initShoeMulti 1 oneTwoLeft R2)
   \<and> 0 < initShoeMulti 1 oneTwoLeft R2 R2
   \<and> fst (dealerOutcomeProbs R2 (initShoeMulti 1 oneTwoLeft R2) DEFAULT_RULES) = []
   \<and> \<not> \<bar>distSum (fst (dealerOutcomeProbs R2 (initShoeMulti 1 oneTwoLeft R2) DEFAULT_RULES)) - 1\<bar>
         \<le> 1 / 1000000000"
  unfolding oneTwoLeft_shoe by code_simp

section \<open>The value of a natural\<close>

lemma getOr0_setKey: "getOr0 (setKey out k' v) k = (if k = k' then v else getOr0 out k)"
  by (induction out) (auto simp: getOr0_def)

lemma getOr0_nonneg: "distNonneg d \<Longrightarrow> 0 \<le> getOr0 d k"
  by (induction d) (auto simp: getOr0_def distNonneg_def)

lemma distNonneg_setKey: "0 \<le> v \<Longrightarrow> distNonneg out \<Longrightarrow> distNonneg (setKey out k v)"
  by (induction out) (auto simp: distNonneg_def)

lemma mixInto_nonneg:
  assumes "0 \<le> p"
  shows "distNonneg out \<Longrightarrow> distNonneg nxt \<Longrightarrow> distNonneg (mixInto out p nxt)"
proof -
  have "distNonneg out \<Longrightarrow> distNonneg nxt \<Longrightarrow>
        distNonneg (fold (\<lambda>kv acc. setKey acc (fst kv) (getOr0 acc (fst kv) + p * snd kv)) nxt out)"
  proof (induction nxt arbitrary: out)
    case Nil
    then show ?case by simp
  next
    case (Cons kv nxt)
    from Cons.prems(2) have v: "0 \<le> snd kv" and n: "distNonneg nxt"
      by (simp_all add: distNonneg_def)
    have "0 \<le> getOr0 out (fst kv) + p * snd kv"
      using getOr0_nonneg [OF Cons.prems(1), of "fst kv"] v assms by simp
    from Cons.IH [OF distNonneg_setKey [OF this Cons.prems(1)] n] show ?case by simp
  qed
  then show "distNonneg out \<Longrightarrow> distNonneg nxt \<Longrightarrow> distNonneg (mixInto out p nxt)"
    by (simp add: mixInto_def)
qed

lemma mixInto_lower:
  assumes "0 \<le> p"
  shows "distNonneg nxt \<Longrightarrow> getOr0 out k + p * getOr0 nxt k \<le> getOr0 (mixInto out p nxt) k"
proof -
  have "distNonneg nxt \<Longrightarrow>
        getOr0 out k + p * getOr0 nxt k
          \<le> getOr0 (fold (\<lambda>kv acc. setKey acc (fst kv) (getOr0 acc (fst kv) + p * snd kv)) nxt out) k"
  proof (induction nxt arbitrary: out)
    case Nil
    then show ?case by (simp add: getOr0_def)
  next
    case (Cons kv nxt)
    from Cons.prems have v: "0 \<le> snd kv" and n: "distNonneg nxt"
      by (simp_all add: distNonneg_def)
    let ?out' = "setKey out (fst kv) (getOr0 out (fst kv) + p * snd kv)"
    have ih: "getOr0 ?out' k + p * getOr0 nxt k
              \<le> getOr0 (fold (\<lambda>kv acc. setKey acc (fst kv) (getOr0 acc (fst kv) + p * snd kv)) nxt ?out') k"
      by (rule Cons.IH [OF n])
    have r: "0 \<le> p * getOr0 nxt k" using assms getOr0_nonneg [OF n, of k] by simp
    show ?case
    proof (cases "fst kv = k")
      case True
      then have "getOr0 (kv # nxt) k = snd kv" by (cases kv) (simp add: getOr0_def)
      moreover have "getOr0 ?out' k = getOr0 out k + p * snd kv" using True by (simp add: getOr0_setKey)
      ultimately show ?thesis using ih r by simp
    next
      case False
      then have "getOr0 (kv # nxt) k = getOr0 nxt k" by (cases kv) (auto simp: getOr0_def)
      moreover have "getOr0 ?out' k = getOr0 out k" using False by (auto simp: getOr0_setKey)
      ultimately show ?thesis using ih by simp
    qed
  qed
  then show "distNonneg nxt \<Longrightarrow> getOr0 out k + p * getOr0 nxt k \<le> getOr0 (mixInto out p nxt) k"
    by (simp add: mixInto_def)
qed

lemma memoInv_upd:
  "memoInv memo \<Longrightarrow> distNonneg d \<Longrightarrow> (fst key = 21 \<longrightarrow> d = [(Tot 21, 1)]) \<Longrightarrow>
   memoInv (memo(key \<mapsto> d))"
  unfolding memoInv_def by auto

lemma weight_nonneg: "\<not> s r \<le> (0::int) \<Longrightarrow> 0 \<le> tot \<Longrightarrow> 0 \<le> rat_of_int (s r) / rat_of_int tot"
  by simp

lemma probs_inv:
  "memoInv memo \<longrightarrow> shoeOK shoe \<longrightarrow>
     distNonneg (fst (probsFor rl cards shoe memo))
     \<and> memoInv (snd (snd (probsFor rl cards shoe memo)))
     \<and> (best (handTotals cards) = 21 \<longrightarrow> fst (probsFor rl cards shoe memo) = [(Tot 21, 1)])"
  "memoInv memo \<longrightarrow> shoeOK shoe \<longrightarrow> 0 \<le> tot \<longrightarrow> distNonneg out \<longrightarrow>
     distNonneg (fst (probsLoop rl cards tot rs out shoe memo))
     \<and> memoInv (snd (snd (probsLoop rl cards tot rs out shoe memo)))
     \<and> getOr0 out k \<le> getOr0 (fst (probsLoop rl cards tot rs out shoe memo)) k"
proof (induction rl cards shoe memo and rl cards tot rs out shoe memo rule: probsFor_probsLoop.induct)
  case (1 rl cards shoe memo)
  let ?key = "(best (handTotals cards), isSoft (handTotals cards), shoeKey shoe)"
  let ?res = "probsFor rl cards shoe memo"
  show ?case
  proof (intro impI)
    assume m: "memoInv memo" and ok: "shoeOK shoe"
    show "distNonneg (fst ?res) \<and> memoInv (snd (snd ?res))
          \<and> (best (handTotals cards) = 21 \<longrightarrow> fst ?res = [(Tot 21, 1)])"
    proof (cases "memo ?key")
      case (Some d)
      with m have "distNonneg d \<and> (fst ?key = 21 \<longrightarrow> d = [(Tot 21, 1)])"
        unfolding memoInv_def by blast
      with m show ?thesis by (simp add: probsFor_cached [where memo = memo and cards = cards and shoe = shoe, OF Some])
    next
      case None
      show ?thesis
      proof (cases "21 < best (handTotals cards)")
        case True
        have "distNonneg [(Bust, 1)]" by (simp add: distNonneg_def)
        with True m show ?thesis
          by (simp add: probsFor_bust [where memo = memo and cards = cards and shoe = shoe, OF None True]
                memoInv_upd)
      next
        case nb: False
        show ?thesis
        proof (cases "shouldStand (handTotals cards) rl")
          case True
          have le: "best (handTotals cards) \<le> 21" using nb by simp
          have d: "distNonneg [(Tot (best (handTotals cards)), 1)]" by (simp add: distNonneg_def)
          have r: "probsFor rl cards shoe memo
                   = ([(Tot (best (handTotals cards)), 1)], shoe,
                      memo(?key \<mapsto> [(Tot (best (handTotals cards)), 1)]))"
            using None le True by (rule probsFor_stand)
          have "memoInv (memo(?key \<mapsto> [(Tot (best (handTotals cards)), 1)]))"
            using m d by (rule memoInv_upd) simp
          with d show ?thesis by (simp only: r fst_conv snd_conv) simp
        next
          case ns: False
          have n21: "best (handTotals cards) \<noteq> 21"
            using ns natural_stands [of "handTotals cards" rl] by auto
          show ?thesis
          proof (cases "shoeTotal shoe = 0")
            case True
            have le: "best (handTotals cards) \<le> 21" using nb by simp
            have "distNonneg []" by (simp add: distNonneg_def)
            with True m n21 show ?thesis
              by (simp add: probsFor_draw [where memo = memo and cards = cards and shoe = shoe, OF None le ns]
                    memoInv_upd)
          next
            case False
            have nn: "\<not> (length cards = 2 \<and> best (handTotals cards) = 21)" using n21 by simp
            have e: "distNonneg []" by (simp add: distNonneg_def)
            have t: "0 \<le> shoeTotal shoe"
              using ok by (auto simp: shoeTotal_sum_list shoeOK_iff intro!: sum_list_nonneg)
            from "1.IH" [OF refl refl None nn nb ns False] m ok t e
            have "distNonneg (fst (probsLoop rl cards (shoeTotal shoe) RANKS [] shoe memo))
                  \<and> memoInv (snd (snd (probsLoop rl cards (shoeTotal shoe) RANKS [] shoe memo)))"
              by simp
            moreover have le: "best (handTotals cards) \<le> 21" using nb by simp
            ultimately show ?thesis using False n21
              by (simp add: probsFor_draw [where memo = memo and cards = cards and shoe = shoe, OF None le ns]
                    case_prod_beta memoInv_upd)
          qed
        qed
      qed
    qed
  qed
next
  case (2 rl cards tot out shoe memo)
  show ?case by simp
next
  case (3 rl cards tot r rs out shoe memo)
  show ?case
  proof (cases "shoe r \<le> 0")
    case True
    with "3.IH"(1) show ?thesis by simp
  next
    case False
    let ?x = "probsFor rl (cards @ [r]) (draw shoe r) memo"
    let ?p = "rat_of_int (shoe r) / rat_of_int tot"
    have sh: "fst (snd ?x) = draw shoe r" by (rule probs_shoe)
    have step: "probsLoop rl cards tot (r # rs) out shoe memo
                = probsLoop rl cards tot rs (mixInto out ?p (fst ?x)) shoe (snd (snd ?x))"
      using False by (simp add: case_prod_beta sh undraw_draw)
    show ?thesis
    proof (intro impI)
      assume m: "memoInv memo" and ok: "shoeOK shoe" and t: "0 \<le> tot" and o: "distNonneg out"
      have ok': "shoeOK (draw shoe r)" using ok False by (simp add: shoeOK_draw)
      from "3.IH"(2) [OF False] m ok'
      have x: "distNonneg (fst ?x)" "memoInv (snd (snd ?x))" by simp_all
      have p: "0 \<le> ?p" using False t by (rule weight_nonneg)
      have o': "distNonneg (mixInto out ?p (fst ?x))" using mixInto_nonneg [OF p o x(1)] .
      have "0 \<le> ?p * getOr0 (fst ?x) k"
        using p getOr0_nonneg [OF x(1), of k] by (rule mult_nonneg_nonneg)
      with mixInto_lower [OF p x(1), of out k]
      have lo: "getOr0 out k \<le> getOr0 (mixInto out ?p (fst ?x)) k" by linarith
      from "3.IH"(3) [OF False prod.collapse prod.collapse, unfolded sh undraw_draw] x(2) ok t o' lo
      show "distNonneg (fst (probsLoop rl cards tot (r # rs) out shoe memo))
            \<and> memoInv (snd (snd (probsLoop rl cards tot (r # rs) out shoe memo)))
            \<and> getOr0 out k \<le> getOr0 (fst (probsLoop rl cards tot (r # rs) out shoe memo)) k"
        unfolding step by auto
    qed
  qed
qed

lemma shoeTotal_nonneg: "shoeOK s \<Longrightarrow> 0 \<le> shoeTotal s"
  by (auto simp: shoeTotal_sum_list shoeOK_iff intro!: sum_list_nonneg)

lemma shoeTotal_pos: "shoeOK s \<Longrightarrow> 0 < s r \<Longrightarrow> 0 < shoeTotal s"
  using shoeTotal_nonneg [of s] empty_shoe_counts [of s r] by (cases "shoeTotal s = 0") auto

lemma holeLoop_inv:
  assumes "shoeOK shoe" "0 \<le> tot"
  shows "memoInv memo \<Longrightarrow> distNonneg dst \<Longrightarrow>
         distNonneg (fst (holeLoop rl up tot rs dst shoe memo))
         \<and> getOr0 dst k \<le> getOr0 (fst (holeLoop rl up tot rs dst shoe memo)) k"
proof (induction rs arbitrary: dst memo)
  case Nil
  then show ?case by simp
next
  case (Cons r rs)
  show ?case
  proof (cases "shoe r \<le> 0")
    case True
    with Cons show ?thesis by simp
  next
    case False
    let ?x = "probsFor rl [up, r] (draw shoe r) memo"
    let ?p = "rat_of_int (shoe r) / rat_of_int tot"
    have sh: "fst (snd ?x) = draw shoe r" by (rule probs_shoe)
    have ok': "shoeOK (draw shoe r)" using assms(1) False by (simp add: shoeOK_draw)
    from probs_inv(1) [of memo "draw shoe r" rl "[up, r]"] Cons.prems(1) ok'
    have x: "distNonneg (fst ?x)" "memoInv (snd (snd ?x))" by simp_all
    have p: "0 \<le> ?p" using False assms(2) by (rule weight_nonneg)
    have d': "distNonneg (mixInto dst ?p (fst ?x))" using mixInto_nonneg [OF p Cons.prems(2) x(1)] .
    have "0 \<le> ?p * getOr0 (fst ?x) k"
      using p getOr0_nonneg [OF x(1), of k] by (rule mult_nonneg_nonneg)
    with mixInto_lower [OF p x(1), of dst k]
    have lo: "getOr0 dst k \<le> getOr0 (mixInto dst ?p (fst ?x)) k" by linarith
    have step: "holeLoop rl up tot (r # rs) dst shoe memo
                = holeLoop rl up tot rs (mixInto dst ?p (fst ?x)) shoe (snd (snd ?x))"
      using False by (simp add: case_prod_beta sh undraw_draw)
    from Cons.IH [OF x(2) d'] lo show ?thesis unfolding step by auto
  qed
qed

lemma probsLoop_append:
  "probsLoop rl cards tot (xs @ ys) out shoe memo =
     probsLoop rl cards tot ys (fst (probsLoop rl cards tot xs out shoe memo)) shoe
       (snd (snd (probsLoop rl cards tot xs out shoe memo)))"
proof (induction xs arbitrary: out memo)
  case Nil
  show ?case by simp
next
  case (Cons r xs)
  have sh: "fst (snd (probsFor rl (cards @ [r]) (draw shoe r) memo)) = draw shoe r"
    by (rule probs_shoe)
  show ?case
    by (cases "shoe r \<le> 0") (simp_all add: Cons.IH case_prod_beta sh undraw_draw)
qed

lemma probsFor_inv:
  assumes "memoInv memo" "shoeOK shoe"
  shows "distNonneg (fst (probsFor rl cards shoe memo))"
    and "memoInv (snd (snd (probsFor rl cards shoe memo)))"
    and "best (handTotals cards) = 21 \<Longrightarrow> fst (probsFor rl cards shoe memo) = [(Tot 21, 1)]"
  using probs_inv(1) [of memo shoe rl cards] assms by blast+

lemma probsLoop_inv:
  assumes "memoInv memo" "shoeOK shoe" "0 \<le> tot" "distNonneg out"
  shows "distNonneg (fst (probsLoop rl cards tot rs out shoe memo))"
    and "memoInv (snd (snd (probsLoop rl cards tot rs out shoe memo)))"
    and "getOr0 out k \<le> getOr0 (fst (probsLoop rl cards tot rs out shoe memo)) k"
  using probs_inv(2) [of memo shoe tot out rl cards rs k] assms by blast+

lemma probsLoop_step:
  assumes "0 < shoe r"
  shows "probsLoop rl cards tot (r # rs) out shoe memo
         = probsLoop rl cards tot rs
             (mixInto out (rat_of_int (shoe r) / rat_of_int tot)
                (fst (probsFor rl (cards @ [r]) (draw shoe r) memo)))
             shoe (snd (snd (probsFor rl (cards @ [r]) (draw shoe r) memo)))"
proof -
  have sh: "fst (snd (probsFor rl (cards @ [r]) (draw shoe r) memo)) = draw shoe r"
    by (rule probs_shoe)
  show ?thesis using assms by (simp add: case_prod_beta sh undraw_draw)
qed

lemma holeLoop_step:
  assumes "0 < shoe r"
  shows "holeLoop rl up tot (r # rs) dst shoe memo
         = holeLoop rl up tot rs
             (mixInto dst (rat_of_int (shoe r) / rat_of_int tot)
                (fst (probsFor rl [up, r] (draw shoe r) memo)))
             shoe (snd (snd (probsFor rl [up, r] (draw shoe r) memo)))"
proof -
  have sh: "fst (snd (probsFor rl [up, r] (draw shoe r) memo)) = draw shoe r"
    by (rule probs_shoe)
  show ?thesis using assms by (simp add: case_prod_beta sh undraw_draw)
qed

text \<open>A drawing loop that comes to a rank \<open>r\<close> which takes the hand to 21 puts at least
  the weight of \<open>r\<close> on the outcome 21.\<close>

lemma loop_reaches_21:
  assumes ok: "shoeOK s" and m: "memoInv memo" and pos: "0 < s r" and t: "0 \<le> tot"
    and o: "distNonneg out" and b: "best (handTotals (cards @ [r])) = 21"
  shows "rat_of_int (s r) / rat_of_int tot
         \<le> getOr0 (fst (probsLoop rl cards tot (pre @ r # post) out s memo)) (Tot 21)"
proof -
  let ?pre = "probsLoop rl cards tot pre out s memo"
  let ?p = "rat_of_int (s r) / rat_of_int tot"
  have pre: "distNonneg (fst ?pre)" "memoInv (snd (snd ?pre))"
    using m ok t o by (rule probsLoop_inv)+
  let ?x = "probsFor rl (cards @ [r]) (draw s r) (snd (snd ?pre))"
  have ok': "shoeOK (draw s r)" using ok pos by (simp add: shoeOK_draw)
  have x1: "fst ?x = [(Tot 21, 1)]" using pre(2) ok' b by (rule probsFor_inv(3))
  have x2: "memoInv (snd (snd ?x))" using pre(2) ok' by (rule probsFor_inv(2))
  have p: "0 \<le> ?p" using pos t by simp
  let ?o = "mixInto (fst ?pre) ?p [(Tot 21, 1)]"
  have n1: "distNonneg [(Tot 21, 1)]" by (simp add: distNonneg_def)
  have o': "distNonneg ?o" using mixInto_nonneg [OF p pre(1) n1] .
  have "getOr0 (fst ?pre) (Tot 21) + ?p * getOr0 [(Tot 21, 1)] (Tot 21) \<le> getOr0 ?o (Tot 21)"
    using mixInto_lower [OF p n1] .
  moreover have "getOr0 [(Tot 21, 1)] (Tot 21) = 1" by (simp add: getOr0_def)
  moreover have "0 \<le> getOr0 (fst ?pre) (Tot 21)" using getOr0_nonneg [OF pre(1)] .
  ultimately have lo: "?p \<le> getOr0 ?o (Tot 21)" by simp
  have eq: "probsLoop rl cards tot (pre @ r # post) out s memo
        = probsLoop rl cards tot post ?o s (snd (snd ?x))"
    by (simp only: probsLoop_append probsLoop_step [where shoe = s and r = r, OF pos] x1)
  have "getOr0 ?o (Tot 21) \<le> getOr0 (fst (probsLoop rl cards tot post ?o s (snd (snd ?x)))) (Tot 21)"
    using x2 ok t o' by (rule probsLoop_inv(3))
  with lo show ?thesis unfolding eq by linarith
qed

lemma totals_6A:
  "best (handTotals [R6, A]) = 17" "isSoft (handTotals [R6, A])"
  "best (handTotals ([R6, A] @ [R4])) = 21"
  by (simp_all add: handTotals_best handTotals_isSoft handTotals_hard hardValue_def)

text \<open>The banker's 6 and ace, hitting soft 17: the loop reaches the four, which makes 21.\<close>

lemma six_ace_reaches_21:
  assumes h17: "dealerHitsSoft17 rl" and ok: "shoeOK s" and four: "0 < s R4"
  shows "rat_of_int (s R4) / rat_of_int (shoeTotal s)
         \<le> getOr0 (fst (probsFor rl [R6, A] s Map.empty)) (Tot 21)"
proof -
  have t: "0 < shoeTotal s" using ok four by (rule shoeTotal_pos)
  have ns: "\<not> shouldStand (handTotals [R6, A]) rl"
    using h17 by (simp add: shouldStand_def totals_6A)
  have le: "best (handTotals [R6, A]) \<le> 21" by (simp add: totals_6A)
  have r: "fst (probsFor rl [R6, A] s Map.empty)
           = fst (probsLoop rl [R6, A] (shoeTotal s) RANKS [] s Map.empty)"
    using t by (simp add: probsFor_draw [where memo = Map.empty and cards = "[R6, A]" and shoe = s, OF _ le ns]
          case_prod_beta)
  have split: "RANKS = [A, R2, R3] @ R4 # [R5, R6, R7, R8, R9, R10, J, Q, K]"
    by (simp add: RANKS_def)
  have m: "memoInv Map.empty" by (simp add: memoInv_def)
  have e: "distNonneg []" by (simp add: distNonneg_def)
  have t0: "0 \<le> shoeTotal s" using t by simp
  show ?thesis
    unfolding r split using ok m four t0 e totals_6A(3) by (rule loop_reaches_21)
qed

lemma banker_21_positive:
  assumes h17: "dealerHitsSoft17 rl" and ok: "shoeOK shoe" and ace: "0 < shoe A" and four: "0 < shoe R4"
  shows "0 < getOr0 (fst (dealerOutcomeProbs R6 shoe rl)) (Tot 21)"
proof -
  let ?tot = "shoeTotal shoe"
  let ?x = "probsFor rl [R6, A] (draw shoe A) Map.empty"
  let ?pA = "rat_of_int (shoe A) / rat_of_int ?tot"
  let ?q = "rat_of_int (draw shoe A R4) / rat_of_int (shoeTotal (draw shoe A))"
  let ?d1 = "mixInto [] ?pA (fst ?x)"
  have t: "0 < ?tot" using ok ace by (rule shoeTotal_pos)
  have ok': "shoeOK (draw shoe A)" using ok ace by (rule shoeOK_draw)
  have four': "0 < draw shoe A R4" using four by (simp add: draw_def)
  have t': "0 < shoeTotal (draw shoe A)" using ok' four' by (rule shoeTotal_pos)
  have m: "memoInv Map.empty" by (simp add: memoInv_def)
  have e: "distNonneg []" by (simp add: distNonneg_def)
  have x1: "distNonneg (fst ?x)" using m ok' by (rule probsFor_inv(1))
  have x2: "memoInv (snd (snd ?x))" using m ok' by (rule probsFor_inv(2))
  have q: "?q \<le> getOr0 (fst ?x) (Tot 21)" using h17 ok' four' by (rule six_ace_reaches_21)
  have qpos: "0 < ?q" using four' t' by simp
  have pA: "0 < ?pA" using ace t by simp
  then have pA0: "0 \<le> ?pA" by simp
  have "0 < ?pA * getOr0 (fst ?x) (Tot 21)"
    using pA q qpos by (intro mult_pos_pos) auto
  moreover have "getOr0 [] (Tot 21) + ?pA * getOr0 (fst ?x) (Tot 21) \<le> getOr0 ?d1 (Tot 21)"
    using mixInto_lower [OF pA0 x1] .
  moreover have "getOr0 [] (Tot 21) = 0" by (simp add: getOr0_def)
  ultimately have d1: "0 < getOr0 ?d1 (Tot 21)" by simp
  have d1n: "distNonneg ?d1" using mixInto_nonneg [OF pA0 e x1] .
  have split: "RANKS = A # [R2, R3, R4, R5, R6, R7, R8, R9, R10, J, Q, K]" by (simp add: RANKS_def)
  have eq: "holeLoop rl R6 ?tot RANKS [] shoe Map.empty
        = holeLoop rl R6 ?tot [R2, R3, R4, R5, R6, R7, R8, R9, R10, J, Q, K] ?d1 shoe (snd (snd ?x))"
    by (simp only: split holeLoop_step [where shoe = shoe and r = A, OF ace])
  have t0: "0 \<le> ?tot" using t by simp
  have "getOr0 ?d1 (Tot 21)
        \<le> getOr0 (fst (holeLoop rl R6 ?tot [R2, R3, R4, R5, R6, R7, R8, R9, R10, J, Q, K] ?d1 shoe
                          (snd (snd ?x)))) (Tot 21)"
    using holeLoop_inv [OF ok t0 x2 d1n] by blast
  with d1 have "0 < getOr0 (fst (holeLoop rl R6 ?tot RANKS [] shoe Map.empty)) (Tot 21)"
    unfolding eq by linarith
  then show ?thesis by (simp add: dealerOutcomeProbs_def case_prod_beta)
qed

lemma six_never_natural: "\<not> isBlackjack [R6, r]"
  by (cases r)
     (simp_all add: isBlackjack_def handTotals_best handTotals_isSoft handTotals_hard hardValue_def)

text \<open>
  C1, on the code. The value that the natural bypass assigns is
  \<open>(1 - dist["21"]) * blackjackPays\<close>, where \<open>dist["21"]\<close> is the probability that the banker
  ends on a total of 21 with any number of cards: \<^verbatim>\<open>probsFor\<close> files a two-card 21 and a
  21 it stands on under the same key. Against the upcard 6 no banker natural is possible,
  yet when the banker hits soft 17 and the shoe holds an ace and a four (6, A, 4 is 21) the
  value is strictly below \<open>1 * blackjackPays\<close>. It is the value of the Blackjack entry of the
  table for the hand ace, ten.
\<close>

theorem natural_ev_counts_every_banker_21:
  assumes "dealerHitsSoft17 rl" "0 < blackjackPays rl" "shoeOK shoe" "0 < shoe A" "0 < shoe R4"
  shows "(\<forall>r. \<not> isBlackjack [R6, r])
         \<and> fst (evInitialBlackjack R6 rl shoe)
             = (1 - getOr0 (fst (dealerOutcomeProbs R6 shoe rl)) (Tot 21)) * blackjackPays rl
         \<and> fst (evInitialBlackjack R6 rl shoe) < 1 * blackjackPays rl
         \<and> map_of (fst (actionEVsFinite [A, R10] (appCtx rl R6 [A, R10]) shoe)) ''Blackjack''
             = Some (fst (evInitialBlackjack R6 rl shoe))"
proof (intro conjI)
  show "\<forall>r. \<not> isBlackjack [R6, r]" by (simp add: six_never_natural)
  show v: "fst (evInitialBlackjack R6 rl shoe)
             = (1 - getOr0 (fst (dealerOutcomeProbs R6 shoe rl)) (Tot 21)) * blackjackPays rl"
    by (simp add: evInitialBlackjack_def case_prod_beta)
  have "0 < getOr0 (fst (dealerOutcomeProbs R6 shoe rl)) (Tot 21)"
    using assms(1,3,4,5) by (rule banker_21_positive)
  then have "(1 - getOr0 (fst (dealerOutcomeProbs R6 shoe rl)) (Tot 21)) * blackjackPays rl
             < 1 * blackjackPays rl"
    using assms(2) by (intro mult_strict_right_mono) auto
  then show "fst (evInitialBlackjack R6 rl shoe) < 1 * blackjackPays rl"
    unfolding v .
  have bj: "isBlackjack [A, R10]"
    by (simp add: isBlackjack_def handTotals_best handTotals_isSoft handTotals_hard hardValue_def)
  show "map_of (fst (actionEVsFinite [A, R10] (appCtx rl R6 [A, R10]) shoe)) ''Blackjack''
             = Some (fst (evInitialBlackjack R6 rl shoe))"
    by (simp add: actionEVsFinite_unfold bj appCtx_def normalizeRank_def)
qed

lemma shoe_counts_example:
  "shoeOK (initShoeMulti 6 [[A, R10]] R6)"
  "initShoeMulti 6 [[A, R10]] R6 A = 23" "initShoeMulti 6 [[A, R10]] R6 R4 = 24"
  by (simp_all add: shoeOK_def initShoeMulti_def makeFullShoe_def remove_def RANKS_def)

theorem natural_ev_counts_every_banker_21_witness:
  "fst (evInitialBlackjack R6 DEFAULT_RULES (initShoeMulti 6 [[A, R10]] R6)) < 3 / 2
   \<and> map_of (fst (actionEVsFinite [A, R10] (appCtx DEFAULT_RULES R6 [A, R10])
                     (initShoeMulti 6 [[A, R10]] R6))) ''Blackjack''
       = Some (fst (evInitialBlackjack R6 DEFAULT_RULES (initShoeMulti 6 [[A, R10]] R6)))"
proof -
  have h: "dealerHitsSoft17 DEFAULT_RULES" "0 < blackjackPays DEFAULT_RULES"
    "blackjackPays DEFAULT_RULES = 3 / 2"
    by (simp_all add: DEFAULT_RULES_def)
  have p: "0 < initShoeMulti 6 [[A, R10]] R6 A" "0 < initShoeMulti 6 [[A, R10]] R6 R4"
    by (simp_all add: shoe_counts_example)
  from natural_ev_counts_every_banker_21 [OF h(1,2) shoe_counts_example(1) p]
  show ?thesis by (simp add: h(3))
qed

text \<open>The same on a shoe small enough to evaluate: a 5 and a 10 left, upcard 6. The banker
  always ends on 6 + 5 + 10 = 21, and the natural is given the value 0 instead of 3/2.\<close>

lemma natural_ev_small_shoe:
  "fst (evInitialBlackjack R6 DEFAULT_RULES ((\<lambda>r. 0)(R5 := 1, R10 := 1))) = 0"
  by code_simp

end
